theory Spec2Isabelle
  imports Main
begin

section \<open>Strings\<close>

text \<open>
  Python strings are modelled as \<open>string\<close>; a \<open>char\<close> stands for the code point of the
  same number (0 to 255). \<open>isspace\<close> lists the code points of that range that
  \<open>str.strip()\<close> removes.
\<close>

definition isspace :: "char \<Rightarrow> bool" where
  "isspace c = (let n = (of_char c :: nat)
                in (9 \<le> n \<and> n \<le> 13) \<or> (28 \<le> n \<and> n \<le> 32) \<or> n = 133 \<or> n = 160)"

definition lstrip :: "string \<Rightarrow> string" where
  "lstrip s = dropWhile isspace s"

definition rstrip :: "string \<Rightarrow> string" where
  "rstrip s = rev (dropWhile isspace (rev s))"

definition strip :: "string \<Rightarrow> string" where
  "strip s = rstrip (lstrip s)"

text \<open>\<open>s.rstrip(c)\<close> for a one-character argument.\<close>

definition rstrip_chr :: "char \<Rightarrow> string \<Rightarrow> string" where
  "rstrip_chr c s = rev (dropWhile (\<lambda>x. x = c) (rev s))"

definition startswith :: "string \<Rightarrow> string \<Rightarrow> bool" where
  "startswith s p = (take (length p) s = p)"

text \<open>\<open>s.split(c)\<close> with a separator: never empty, empty fields are kept.\<close>

fun split_on :: "char \<Rightarrow> string \<Rightarrow> string list" where
  "split_on c [] = [[]]"
| "split_on c (x # xs) =
     (if x = c then [] # split_on c xs
      else (case split_on c xs of
              [] \<Rightarrow> [[x]]
            | w # ws \<Rightarrow> (x # w) # ws))"

text \<open>\<open>xs.index(v)\<close>: the first position of \<open>v\<close>; the source calls it only after
  the test \<open>v in xs\<close>, so the ValueError of a missing value is never raised there.\<close>

fun list_index :: "'a list \<Rightarrow> 'a \<Rightarrow> nat" where
  "list_index [] v = 0"
| "list_index (x # xs) v = (if x = v then 0 else Suc (list_index xs v))"

section \<open>Input resolver: the username\<close>

text \<open>
  \<open>prompt_if_missing(None, label)\<close> reads a line from the terminal; the line the user
  types is the parameter \<open>typed\<close>.
\<close>

definition prompt_if_missing_None :: "string \<Rightarrow> string" where
  "prompt_if_missing_None typed = strip typed"

text \<open>\<open>username or raw_input\<close>: the first operand when it is truthy (a non-empty string).\<close>

definition py_or_str :: "string option \<Rightarrow> string option \<Rightarrow> string option" where
  "py_or_str a b = (case a of None \<Rightarrow> b | Some s \<Rightarrow> (if s = [] then b else Some s))"

text \<open>Lines 69 to 73 of \<open>resolve_username\<close>: the candidate, prompted for when absent or
  blank, then trimmed.\<close>

definition candidate_text :: "string \<Rightarrow> string option \<Rightarrow> string option \<Rightarrow> string" where
  "candidate_text typed username raw_input =
     (let candidate = py_or_str username raw_input;
          candidate = (case candidate of
                         None \<Rightarrow> prompt_if_missing_None typed
                       | Some c \<Rightarrow> (if strip c = [] then prompt_if_missing_None typed else c))
      in strip candidate)"

text \<open>Lines 74 to 82.\<close>

definition username_of_text :: "string \<Rightarrow> string" where
  "username_of_text text =
     (if startswith text ''http://'' \<or> startswith text ''https://'' then
        (let parts = split_on CHR ''/'' (rstrip_chr CHR ''/'' text)
         in if ''p'' \<in> set parts \<and> list_index parts ''p'' + 1 < length parts
            then parts ! (list_index parts ''p'' + 1)
            else last parts)
      else text)"

definition resolve_username :: "string \<Rightarrow> string option \<Rightarrow> string option \<Rightarrow> string" where
  "resolve_username typed username raw_input =
     username_of_text (candidate_text typed username raw_input)"

text \<open>
  The rule in the words of the specification: the segment immediately following a
  \<open>p\<close> segment, when there is one.
\<close>

fun segment_after_p :: "string list \<Rightarrow> string option" where
  "segment_after_p [] = None"
| "segment_after_p [x] = None"
| "segment_after_p (x # y # ys) = (if x = ''p'' then Some y else segment_after_p (y # ys))"

text \<open>\<open>"/".join(segs)\<close>, to state what splitting and stripping undo.\<close>

fun join_with :: "char \<Rightarrow> string list \<Rightarrow> string" where
  "join_with c [] = []"
| "join_with c [s] = s"
| "join_with c (s # t # ss) = s @ c # join_with c (t # ss)"

definition url_parts :: "string \<Rightarrow> string list" where
  "url_parts text = split_on CHR ''/'' (rstrip_chr CHR ''/'' text)"

definition is_url :: "string \<Rightarrow> bool" where
  "is_url text = (startswith text ''http://'' \<or> startswith text ''https://'')"

section \<open>Python values and errors\<close>

text \<open>
  Exceptions are values. The three \<open>ValueError\<close>s the builders raise themselves carry
  the message of the source; those of the standard library (\<open>int\<close>, \<open>dt.date\<close>,
  \<open>date.fromisoformat\<close>, \<open>min\<close>, date arithmetic) carry a short description.
\<close>

datatype error = ValueError string | TypeError string | OverflowError string

text \<open>
  The JSON scalars a field of an activity record can hold. Floating-point numbers, arrays
  and objects as field values are outside the model.
\<close>

datatype pyval = PyNone | PyBool bool | PyInt int | PyStr string

fun truthy :: "pyval \<Rightarrow> bool" where
  "truthy PyNone = False"
| "truthy (PyBool b) = b"
| "truthy (PyInt n) = (n \<noteq> 0)"
| "truthy (PyStr s) = (s \<noteq> [])"

definition py_or :: "pyval \<Rightarrow> pyval \<Rightarrow> pyval" where
  "py_or a b = (if truthy a then a else b)"

definition is_digit :: "char \<Rightarrow> bool" where
  "is_digit c = (48 \<le> (of_char c :: nat) \<and> (of_char c :: nat) \<le> 57)"

definition digit_val :: "char \<Rightarrow> nat" where
  "digit_val c = of_char c - 48"

text \<open>Decimal digits, single underscores allowed between two digits.\<close>

fun digits_value :: "string \<Rightarrow> nat \<Rightarrow> nat option" where
  "digits_value [] acc = Some acc"
| "digits_value (c # cs) acc =
     (if is_digit c then digits_value cs (acc * 10 + digit_val c)
      else if c = CHR ''_'' then
        (case cs of
           [] \<Rightarrow> None
         | d # _ \<Rightarrow> (if is_digit d then digits_value cs acc else None))
      else None)"

definition parse_decimal :: "string \<Rightarrow> nat option" where
  "parse_decimal s =
     (case s of
        [] \<Rightarrow> None
      | c # _ \<Rightarrow> (if is_digit c then digits_value s 0 else None))"

text \<open>
  \<open>int(s)\<close> for a string: surrounding whitespace, an optional sign, a decimal literal.
  The whitespace \<open>int\<close> skips is the ASCII whitespace and, of the other code points,
  the Unicode spaces; the separators U+001C to U+001F, which \<open>str.strip()\<close> removes,
  are not skipped and make the literal invalid. More than 4300 digits are refused (the
  interpreter's default limit on conversions).
\<close>

definition int_isspace :: "char \<Rightarrow> bool" where
  "int_isspace c = (let n = (of_char c :: nat)
                    in (9 \<le> n \<and> n \<le> 13) \<or> n = 32 \<or> n = 133 \<or> n = 160)"

definition int_strip :: "string \<Rightarrow> string" where
  "int_strip s = rev (dropWhile int_isspace (rev (dropWhile int_isspace s)))"

definition int_of_str :: "string \<Rightarrow> error + int" where
  "int_of_str s =
     (let t = int_strip s;
          neg = (t \<noteq> [] \<and> hd t = CHR ''-'');
          body = (if t \<noteq> [] \<and> (hd t = CHR ''-'' \<or> hd t = CHR ''+'') then tl t else t)
      in if length (filter is_digit body) > 4300
         then Inl (ValueError ''Exceeds the limit for integer string conversion'')
         else (case parse_decimal body of
                 None \<Rightarrow> Inl (ValueError ''invalid literal for int() with base 10'')
               | Some n \<Rightarrow> Inr (if neg then - int n else int n)))"

fun py_int :: "pyval \<Rightarrow> error + int" where
  "py_int PyNone = Inl (TypeError ''int() argument must be a string or a number'')"
| "py_int (PyBool b) = Inr (if b then 1 else 0)"
| "py_int (PyInt n) = Inr n"
| "py_int (PyStr s) = int_of_str s"

fun str_nat :: "nat \<Rightarrow> string" where
  "str_nat n =
     (if n < 10 then [char_of (48 + n)]
      else str_nat (n div 10) @ [char_of (48 + n mod 10)])"

definition str_int :: "int \<Rightarrow> string" where
  "str_int n = (if n < 0 then CHR ''-'' # str_nat (nat (- n)) else str_nat (nat n))"

fun py_str :: "pyval \<Rightarrow> string" where
  "py_str PyNone = ''None''"
| "py_str (PyBool b) = (if b then ''True'' else ''False'')"
| "py_str (PyInt n) = str_int n"
| "py_str (PyStr s) = s"

text \<open>\<open>d.get(k, default)\<close> on a dictionary.\<close>

definition dict_get :: "('k \<rightharpoonup> 'v) \<Rightarrow> 'k \<Rightarrow> 'v \<Rightarrow> 'v" where
  "dict_get d k dflt = (case d k of None \<Rightarrow> dflt | Some v \<Rightarrow> v)"

section \<open>Calendar dates\<close>

text \<open>
  \<open>dt.date\<close>: a year, a month and a day of the proleptic Gregorian calendar, years 1 to
  9999. The constructor \<open>dt_date\<close> raises outside that range; dates compare as the triples
  do.
\<close>

datatype date = Date (year: int) (month: int) (day: int)

definition MINYEAR :: int where "MINYEAR = 1"
definition MAXYEAR :: int where "MAXYEAR = 9999"

definition is_leap :: "int \<Rightarrow> bool" where
  "is_leap y = (y mod 4 = 0 \<and> (y mod 100 \<noteq> 0 \<or> y mod 400 = 0))"

definition days_in_month :: "int \<Rightarrow> int \<Rightarrow> int" where
  "days_in_month y m =
     (if m = 2 then (if is_leap y then 29 else 28)
      else if m = 4 \<or> m = 6 \<or> m = 9 \<or> m = 11 then 30 else 31)"

definition days_in_year :: "int \<Rightarrow> int" where
  "days_in_year y = (if is_leap y then 366 else 365)"

definition valid_date :: "date \<Rightarrow> bool" where
  "valid_date d =
     (MINYEAR \<le> year d \<and> year d \<le> MAXYEAR \<and> 1 \<le> month d \<and> month d \<le> 12
      \<and> 1 \<le> day d \<and> day d \<le> days_in_month (year d) (month d))"

definition dt_date :: "int \<Rightarrow> int \<Rightarrow> int \<Rightarrow> error + date" where
  "dt_date y m d =
     (if y < MINYEAR \<or> MAXYEAR < y then Inl (ValueError ''year is out of range'')
      else if m < 1 \<or> 12 < m then Inl (ValueError ''month must be in 1..12'')
      else if d < 1 \<or> days_in_month y m < d then Inl (ValueError ''day is out of range for month'')
      else Inr (Date y m d))"

definition date_lt :: "date \<Rightarrow> date \<Rightarrow> bool" where
  "date_lt a b =
     (year a < year b
      \<or> (year a = year b \<and> (month a < month b \<or> (month a = month b \<and> day a < day b))))"

definition date_le :: "date \<Rightarrow> date \<Rightarrow> bool" where
  "date_le a b = (date_lt a b \<or> a = b)"

text \<open>\<open>min(a, b)\<close> returns its first argument unless the second is smaller.\<close>

definition date_min :: "date \<Rightarrow> date \<Rightarrow> date" where
  "date_min a b = (if date_lt b a then b else a)"

text \<open>\<open>cursor + dt.timedelta(days=1)\<close>: the next calendar day, OverflowError after
  the last day of year 9999.\<close>

definition add_one_day :: "date \<Rightarrow> error + date" where
  "add_one_day d =
     (if day d < days_in_month (year d) (month d) then Inr (Date (year d) (month d) (day d + 1))
      else if month d < 12 then Inr (Date (year d) (month d + 1) 1)
      else if year d < MAXYEAR then Inr (Date (year d + 1) 1 1)
      else Inl (OverflowError ''date value out of range''))"

definition digits_num :: "string \<Rightarrow> int" where
  "digits_num s = int (foldl (\<lambda>a c. a * 10 + digit_val c) 0 s)"

text \<open>
  \<open>dt.date.fromisoformat\<close>, for the format \<open>YYYY-MM-DD\<close> that every version of the
  library reads; the further ISO 8601 spellings newer versions accept are refused here.
\<close>

definition fromisoformat :: "string \<Rightarrow> error + date" where
  "fromisoformat s =
     (if length s = 10 \<and> s ! 4 = CHR ''-'' \<and> s ! 7 = CHR ''-''
         \<and> list_all is_digit (take 4 s) \<and> list_all is_digit (take 2 (drop 5 s))
         \<and> list_all is_digit (drop 8 s)
      then dt_date (digits_num (take 4 s)) (digits_num (take 2 (drop 5 s)))
             (digits_num (drop 8 s))
      else Inl (ValueError ''Invalid isoformat string''))"

section \<open>Input resolver: the years\<close>

text \<open>The parsed command line (\<open>argparse.Namespace\<close>); \<open>type=int\<close> options are integers
  or absent.\<close>

record args =
  args_input :: "string option"
  args_username :: "string option"
  args_year :: "int option"
  args_years :: "string option"
  args_year_start :: "int option"
  args_year_end :: "int option"

text \<open>\<open>dt.date.today()\<close> is the parameter \<open>today\<close> wherever the source reads the clock.\<close>

definition resolve_year :: "date \<Rightarrow> pyval \<Rightarrow> error + int" where
  "resolve_year today v =
     (if v = PyNone \<or> (case v of PyStr s \<Rightarrow> strip s = [] | _ \<Rightarrow> False)
      then Inr (year today)
      else py_int v)"

text \<open>The loop of lines 48 to 52 over the comma-separated items.\<close>

fun parse_items :: "string list \<Rightarrow> int list \<Rightarrow> error + int list" where
  "parse_items [] years = Inr years"
| "parse_items (item # items) years =
     (let item = strip item
      in if item = [] then parse_items items years
         else (case int_of_str item of
                 Inl e \<Rightarrow> Inl e
               | Inr n \<Rightarrow> parse_items items (years @ [n])))"

definition opt_pyval :: "int option \<Rightarrow> pyval" where
  "opt_pyval v = (case v of None \<Rightarrow> PyNone | Some n \<Rightarrow> PyInt n)"

text \<open>Lines 46 to 52: the comma-separated list.\<close>

definition years_from_list :: "args \<Rightarrow> error + int list" where
  "years_from_list a =
     (case args_years a of
        None \<Rightarrow> Inr []
      | Some s \<Rightarrow> (if s = [] then Inr [] else parse_items (split_on CHR '','' s) []))"

text \<open>Lines 54 to 59: the range, appended to the years collected so far.\<close>

definition extend_with_range :: "date \<Rightarrow> args \<Rightarrow> int list \<Rightarrow> error + int list" where
  "extend_with_range today a years =
     (if args_year_start a \<noteq> None \<or> args_year_end a \<noteq> None then
        (case (case args_year_start a of
                 Some s \<Rightarrow> Inr s
               | None \<Rightarrow> resolve_year today PyNone) of
           Inl e \<Rightarrow> Inl e
         | Inr start \<Rightarrow>
             (case (case args_year_end a of
                      Some e \<Rightarrow> Inr e
                    | None \<Rightarrow> resolve_year today PyNone) of
                Inl e \<Rightarrow> Inl e
              | Inr end \<Rightarrow>
                  (let (start, end) = (if start > end then (end, start) else (start, end))
                   in Inr (years @ [start..end]))))
      else Inr years)"

definition parse_years :: "date \<Rightarrow> args \<Rightarrow> error + int list" where
  "parse_years today a =
     (case years_from_list a of
        Inl e \<Rightarrow> Inl e
      | Inr years \<Rightarrow>
          (case extend_with_range today a years of
             Inl e \<Rightarrow> Inl e
           | Inr years \<Rightarrow>
               (case (if years = [] then
                        (case resolve_year today (opt_pyval (args_year a)) of
                           Inl e \<Rightarrow> Inl e
                         | Inr y \<Rightarrow> Inr [y])
                      else Inr years) of
                  Inl e \<Rightarrow> Inl e
                | Inr years \<Rightarrow> Inr (sorted_list_of_set (set years)))))"

text \<open>
  The sources of years in the words of the specification: the inclusive range between
  the two endpoints, each defaulting to the current year, in ascending order whichever
  way they were given; and the single year value, defaulting to the current year.
\<close>

definition range_years :: "date \<Rightarrow> args \<Rightarrow> int set" where
  "range_years today a =
     (if args_year_start a = None \<and> args_year_end a = None then {}
      else (let s = (case args_year_start a of Some s \<Rightarrow> s | None \<Rightarrow> year today);
                e = (case args_year_end a of Some e \<Rightarrow> e | None \<Rightarrow> year today)
            in {min s e .. max s e}))"

definition single_year :: "date \<Rightarrow> args \<Rightarrow> int" where
  "single_year today a = (case args_year a of Some y \<Rightarrow> y | None \<Rightarrow> year today)"

section \<open>Series builder\<close>

type_synonym entry = "string \<rightharpoonup> pyval"

text \<open>\<open>str(entry.get("date", ""))\<close> and \<open>int(entry.get("count", 0) or 0)\<close>.\<close>

definition entry_date_str :: "entry \<Rightarrow> string" where
  "entry_date_str e = py_str (dict_get e ''date'' (PyStr []))"

definition entry_count :: "entry \<Rightarrow> error + int" where
  "entry_count e = py_int (py_or (dict_get e ''count'' (PyInt 0)) (PyInt 0))"

text \<open>
  The loop of lines 113 to 120: the count is converted before the date is parsed, and
  only the parsing is inside \<open>try\<close>.
\<close>

fun collect_single :: "entry list \<Rightarrow> (date \<rightharpoonup> int) \<Rightarrow> error + (date \<rightharpoonup> int)" where
  "collect_single [] activity_map = Inr activity_map"
| "collect_single (e # es) activity_map =
     (case entry_count e of
        Inl err \<Rightarrow> Inl err
      | Inr count \<Rightarrow>
          (case fromisoformat (entry_date_str e) of
             Inl _ \<Rightarrow> collect_single es activity_map
           | Inr date_value \<Rightarrow> collect_single es (activity_map(date_value \<mapsto> count))))"

text \<open>The inner loop of lines 146 to 153.\<close>

fun collect_summed :: "entry list \<Rightarrow> (date \<rightharpoonup> int) \<Rightarrow> error + (date \<rightharpoonup> int)" where
  "collect_summed [] activity_map = Inr activity_map"
| "collect_summed (e # es) activity_map =
     (case entry_count e of
        Inl err \<Rightarrow> Inl err
      | Inr count \<Rightarrow>
          (case fromisoformat (entry_date_str e) of
             Inl _ \<Rightarrow> collect_summed es activity_map
           | Inr date_value \<Rightarrow>
               collect_summed es
                 (activity_map(date_value \<mapsto> dict_get activity_map date_value 0 + count))))"

text \<open>The outer loop of lines 144 to 153.\<close>

fun collect_years ::
  "int list \<Rightarrow> (int \<rightharpoonup> entry list) \<Rightarrow> (date \<rightharpoonup> int) \<Rightarrow> error + (date \<rightharpoonup> int)" where
  "collect_years [] activities_by_year activity_map = Inr activity_map"
| "collect_years (y # ys) activities_by_year activity_map =
     (case collect_summed (dict_get activities_by_year y []) activity_map of
        Inl err \<Rightarrow> Inl err
      | Inr m \<Rightarrow> collect_years ys activities_by_year m)"

text \<open>The \<open>while cursor <= end_date\<close> loop shared by both builders.\<close>

function series_loop ::
  "(date \<rightharpoonup> int) \<Rightarrow> date \<Rightarrow> date \<Rightarrow> date list \<Rightarrow> int list \<Rightarrow> error + (date list \<times> int list)"
  where
  "series_loop activity_map end_date cursor dates counts =
     (if date_le cursor end_date then
        (case add_one_day cursor of
           Inl err \<Rightarrow> Inl err
         | Inr nxt \<Rightarrow>
             series_loop activity_map end_date nxt (dates @ [cursor])
               (counts @ [dict_get activity_map cursor 0]))
      else Inr (dates, counts))"
  by pat_completeness auto
termination
  by (relation "measures [\<lambda>(m, e, c, ds, cs). nat (MAXYEAR - year c),
                          \<lambda>(m, e, c, ds, cs). nat (12 - month c),
                          \<lambda>(m, e, c, ds, cs). nat (31 - day c)]")
     (auto simp: add_one_day_def days_in_month_def split: if_splits)

definition build_date_series ::
  "date \<Rightarrow> int \<Rightarrow> entry list \<Rightarrow> error + (date list \<times> int list)" where
  "build_date_series today yr activity =
     (case collect_single activity Map.empty of
        Inl err \<Rightarrow> Inl err
      | Inr activity_map \<Rightarrow>
          (case dt_date yr 1 1 of
             Inl err \<Rightarrow> Inl err
           | Inr start_date \<Rightarrow>
               (case dt_date yr 12 31 of
                  Inl err \<Rightarrow> Inl err
                | Inr end_of_year \<Rightarrow>
                    (let end_date = date_min today end_of_year
                     in if date_lt end_date start_date
                        then Inl (ValueError ''Year is in the future.'')
                        else series_loop activity_map end_date start_date [] []))))"

text \<open>\<open>min(years)\<close> and \<open>max(years)\<close> of a list.\<close>

definition py_min :: "int list \<Rightarrow> error + int" where
  "py_min xs =
     (case xs of
        [] \<Rightarrow> Inl (ValueError ''min() arg is an empty sequence'')
      | x # r \<Rightarrow> Inr (fold min r x))"

definition py_max :: "int list \<Rightarrow> error + int" where
  "py_max xs =
     (case xs of
        [] \<Rightarrow> Inl (ValueError ''max() arg is an empty sequence'')
      | x # r \<Rightarrow> Inr (fold max r x))"

definition build_combined_series ::
  "date \<Rightarrow> int list \<Rightarrow> (int \<rightharpoonup> entry list) \<Rightarrow> error + (date list \<times> int list)" where
  "build_combined_series today years activities_by_year =
     (case collect_years years activities_by_year Map.empty of
        Inl err \<Rightarrow> Inl err
      | Inr activity_map \<Rightarrow>
          (if years = [] then Inl (ValueError ''No years provided for combined series.'')
           else
             (case py_min years of
                Inl err \<Rightarrow> Inl err
              | Inr first_year \<Rightarrow>
                  (case dt_date first_year 1 1 of
                     Inl err \<Rightarrow> Inl err
                   | Inr start_date \<Rightarrow>
                       (case py_max years of
                          Inl err \<Rightarrow> Inl err
                        | Inr last_year \<Rightarrow>
                            (case dt_date last_year 12 31 of
                               Inl err \<Rightarrow> Inl err
                             | Inr end_of_last_year \<Rightarrow>
                                 (let end_date = date_min today end_of_last_year
                                  in if date_lt end_date start_date
                                     then Inl (ValueError ''Year range is in the future.'')
                                     else series_loop activity_map end_date start_date [] [])))))))"

section \<open>Auxiliary notions for the statements\<close>

text \<open>The day of the year of a date, counted from 1 on January 1.\<close>

definition days_before_month :: "int \<Rightarrow> int \<Rightarrow> int" where
  "days_before_month y m = sum_list (map (days_in_month y) [1..m - 1])"

definition day_of_year :: "date \<Rightarrow> int" where
  "day_of_year d = days_before_month (year d) (month d) + day d"

text \<open>Two dates that follow each other in the calendar.\<close>

definition next_day :: "date \<Rightarrow> date \<Rightarrow> bool" where
  "next_day a b = (add_one_day a = Inr b)"

text \<open>The date a record carries, if its date string is well formed, and the count it
  carries, if the conversion succeeds.\<close>

definition record_date :: "entry \<Rightarrow> date option" where
  "record_date e = (case fromisoformat (entry_date_str e) of Inl _ \<Rightarrow> None | Inr d \<Rightarrow> Some d)"

definition record_count :: "entry \<Rightarrow> int" where
  "record_count e = (case entry_count e of Inl _ \<Rightarrow> 0 | Inr c \<Rightarrow> c)"

definition count_ok :: "entry \<Rightarrow> bool" where
  "count_ok e = (case entry_count e of Inl _ \<Rightarrow> False | Inr _ \<Rightarrow> True)"

text \<open>
  The two merge policies in the words of the specification. Last write wins: the count
  of the last record carrying the date, 0 when there is none. Summation: the sum of
  the counts of all records carrying the date, over the lists of the given years.
\<close>

definition last_write_count :: "date \<Rightarrow> entry list \<Rightarrow> int" where
  "last_write_count d activity =
     (case filter (\<lambda>e. record_date e = Some d) activity of
        [] \<Rightarrow> 0
      | x # xs \<Rightarrow> record_count (last (x # xs)))"

definition summed_count :: "date \<Rightarrow> entry list \<Rightarrow> int" where
  "summed_count d activity =
     sum_list (map record_count (filter (\<lambda>e. record_date e = Some d) activity))"

definition records_of_years :: "int list \<Rightarrow> (int \<rightharpoonup> entry list) \<Rightarrow> entry list" where
  "records_of_years years activities_by_year =
     concat (map (\<lambda>y. dict_get activities_by_year y []) years)"

text \<open>An activity record of the data model: its count is a non-negative integer, or is
  null or missing.\<close>

definition activity_record :: "entry \<Rightarrow> bool" where
  "activity_record e =
     (case e ''count'' of
        None \<Rightarrow> True
      | Some PyNone \<Rightarrow> True
      | Some (PyInt n) \<Rightarrow> 0 \<le> n
      | Some _ \<Rightarrow> False)"

text \<open>The proleptic Gregorian ordinal of a date: January 1 of year 1 is day 1. Dates that
  follow each other have ordinals that follow each other.\<close>

definition days_before_year :: "int \<Rightarrow> int" where
  "days_before_year y = (y - 1) * 365 + (y - 1) div 4 - (y - 1) div 100 + (y - 1) div 400"

definition toordinal :: "date \<Rightarrow> int" where
  "toordinal d = days_before_year (year d) + day_of_year d"

section \<open>Properties of the username resolver\<close>

lemma split_on_nonempty: "split_on c s \<noteq> []"
  by (induction s) (auto split: list.splits)

lemma segment_after_p_index:
  "segment_after_p parts =
     (if ''p'' \<in> set parts \<and> list_index parts ''p'' + 1 < length parts
      then Some (parts ! (list_index parts ''p'' + 1)) else None)"
  by (induction parts rule: segment_after_p.induct) auto

lemma list_index_butlast:
  "v \<in> set (butlast xs) \<Longrightarrow> list_index xs v + 1 < length xs"
  by (induction xs) (auto split: if_splits)

lemma list_index_only_last:
  "xs \<noteq> [] \<Longrightarrow> v \<notin> set (butlast xs) \<Longrightarrow> list_index xs v + 1 \<ge> length xs"
  by (induction xs) (auto split: if_splits)

lemma username_of_text_url:
  "is_url text \<Longrightarrow>
   username_of_text text =
     (case segment_after_p (url_parts text) of Some s \<Rightarrow> s | None \<Rightarrow> last (url_parts text))"
  by (simp add: username_of_text_def is_url_def url_parts_def segment_after_p_index Let_def)

lemma candidate_text_given:
  "py_or_str u r = Some c \<Longrightarrow> strip c \<noteq> [] \<Longrightarrow> candidate_text typed u r = strip c"
  by (simp add: candidate_text_def)

lemmas str_defs = candidate_text_def py_or_str_def strip_def lstrip_def rstrip_def
  isspace_def username_of_text_def startswith_def rstrip_chr_def prompt_if_missing_None_def
  is_url_def url_parts_def

lemma split_on_no_sep: "c \<notin> set s \<Longrightarrow> split_on c s = [s]"
  by (induction s) auto

lemma split_on_segment:
  "c \<notin> set s \<Longrightarrow> split_on c (s @ c # rest) = s # split_on c rest"
  by (induction s) auto

lemma split_on_join:
  "segs \<noteq> [] \<Longrightarrow> \<forall>s\<in>set segs. c \<notin> set s \<Longrightarrow> split_on c (join_with c segs) = segs"
  by (induction c segs rule: join_with.induct)
     (simp_all add: split_on_no_sep split_on_segment)

lemma join_with_last:
  "segs \<noteq> [] \<Longrightarrow> last segs \<noteq> [] \<Longrightarrow>
   join_with c segs \<noteq> [] \<and> last (join_with c segs) = last (last segs)"
  by (induction c segs rule: join_with.induct) simp_all

lemma rstrip_chr_trailing:
  "t = [] \<or> last t \<noteq> c \<Longrightarrow> rstrip_chr c (t @ replicate n c) = t"
proof -
  assume t: "t = [] \<or> last t \<noteq> c"
  have "dropWhile (\<lambda>x. x = c) (replicate n c @ rev t) = dropWhile (\<lambda>x. x = c) (rev t)"
    by (induction n) simp_all
  moreover have "dropWhile (\<lambda>x. x = c) (rev t) = rev t"
    using t by (cases "rev t") (auto simp: last_rev [symmetric] simp del: last_rev)
  ultimately show ?thesis by (simp add: rstrip_chr_def)
qed

lemma join_split: "join_with c (split_on c s) = s"
proof (induction s)
  case Nil
  show ?case by simp
next
  case (Cons x xs)
  show ?case
  proof (cases "x = c")
    case True
    with Cons show ?thesis
      by (cases "split_on c xs") (simp_all add: split_on_nonempty)
  next
    case False
    with Cons show ?thesis
      by (cases "split_on c xs"; cases "tl (split_on c xs)") (auto simp: split_on_nonempty)
  qed
qed

lemma split_on_free: "\<forall>x\<in>set (split_on c s). c \<notin> set x"
  by (induction s) (auto split: list.splits)

lemma split_on_last: "s \<noteq> [] \<Longrightarrow> last s \<noteq> c \<Longrightarrow> last (split_on c s) \<noteq> []"
  by (induction s) (auto split: list.splits if_splits simp: split_on_nonempty)

lemma rstrip_chr_decomp:
  "\<exists>n. s = rstrip_chr c s @ replicate n c"
proof -
  have "rev s = takeWhile (\<lambda>x. x = c) (rev s) @ dropWhile (\<lambda>x. x = c) (rev s)" by simp
  moreover have "takeWhile (\<lambda>x. x = c) (rev s)
                 = replicate (length (takeWhile (\<lambda>x. x = c) (rev s))) c"
    by (metis (mono_tags, lifting) replicate_length_same set_takeWhileD)
  ultimately have "rev s = replicate (length (takeWhile (\<lambda>x. x = c) (rev s))) c
                           @ dropWhile (\<lambda>x. x = c) (rev s)" by simp
  then have "s = rev (dropWhile (\<lambda>x. x = c) (rev s))
                 @ replicate (length (takeWhile (\<lambda>x. x = c) (rev s))) c"
    by (metis rev_append rev_replicate rev_rev_ident)
  then show ?thesis by (auto simp: rstrip_chr_def)
qed

lemma rstrip_chr_last: "rstrip_chr c s = [] \<or> last (rstrip_chr c s) \<noteq> c"
proof (cases "dropWhile (\<lambda>x. x = c) (rev s)")
  case Nil
  then show ?thesis by (simp add: rstrip_chr_def)
next
  case (Cons a as)
  then have "a \<noteq> c" using hd_dropWhile [of "\<lambda>x. x = c" "rev s"] by auto
  with Cons show ?thesis by (simp add: rstrip_chr_def)
qed

lemma rstrip_chr_nonempty: "x \<in> set s \<Longrightarrow> x \<noteq> c \<Longrightarrow> rstrip_chr c s \<noteq> []"
proof -
  assume "x \<in> set s" "x \<noteq> c"
  then have "\<exists>y\<in>set (rev s). \<not> y = c" by auto
  then have "dropWhile (\<lambda>x. x = c) (rev s) \<noteq> []" by (simp add: dropWhile_eq_Nil_conv)
  then show ?thesis by (simp add: rstrip_chr_def)
qed

lemma startswith_iff: "startswith s p \<longleftrightarrow> (\<exists>rest. s = p @ rest)"
proof
  assume "startswith s p"
  then have "take (length p) s = p" by (simp add: startswith_def)
  with append_take_drop_id [of "length p" s] have "s = p @ drop (length p) s" by simp
  then show "\<exists>rest. s = p @ rest" ..
next
  assume "\<exists>rest. s = p @ rest"
  then show "startswith s p" by (auto simp: startswith_def)
qed

lemma is_url_iff:
  "is_url t \<longleftrightarrow> (\<exists>rest. t = ''http://'' @ rest \<or> t = ''https://'' @ rest)"
  unfolding is_url_def startswith_iff by blast

lemma url_decomposition:
  assumes "is_url t"
  shows "\<exists>segs n. t = join_with CHR ''/'' segs @ replicate n CHR ''/'' \<and> segs \<noteq> []
           \<and> last segs \<noteq> [] \<and> (\<forall>s\<in>set segs. CHR ''/'' \<notin> set s)"
proof -
  from assms have "CHR ''h'' \<in> set t" by (auto simp: is_url_iff)
  then have ne: "rstrip_chr CHR ''/'' t \<noteq> []" by (rule rstrip_chr_nonempty) simp
  with rstrip_chr_last [of "CHR ''/''" t]
  have l: "last (rstrip_chr CHR ''/'' t) \<noteq> CHR ''/''" by simp
  obtain n where n: "t = rstrip_chr CHR ''/'' t @ replicate n CHR ''/''"
    using rstrip_chr_decomp by blast
  let ?segs = "split_on CHR ''/'' (rstrip_chr CHR ''/'' t)"
  have j: "t = join_with CHR ''/'' ?segs @ replicate n CHR ''/''"
    using n by (simp add: join_split)
  have "?segs \<noteq> []" by (rule split_on_nonempty)
  moreover have "last ?segs \<noteq> []" using ne l by (rule split_on_last)
  moreover have "\<forall>s\<in>set ?segs. CHR ''/'' \<notin> set s" by (rule split_on_free)
  ultimately show ?thesis using j by blast
qed

lemma url_parts_decomposed:
  assumes "t = join_with CHR ''/'' segs @ replicate n CHR ''/''" "segs \<noteq> []"
    "last segs \<noteq> []" "\<forall>s\<in>set segs. CHR ''/'' \<notin> set s"
  shows "url_parts t = segs"
proof -
  from assms(2) have "last segs \<in> set segs" by simp
  with assms(4) have "CHR ''/'' \<notin> set (last segs)" by blast
  moreover from assms(3) have "last (last segs) \<in> set (last segs)" by simp
  ultimately have "last (last segs) \<noteq> CHR ''/''" by auto
  with join_with_last [OF assms(2,3), of "CHR ''/''"]
  have "last (join_with CHR ''/'' segs) \<noteq> CHR ''/''" by simp
  then have "rstrip_chr CHR ''/'' t = join_with CHR ''/'' segs"
    using assms(1) rstrip_chr_trailing [of "join_with CHR ''/'' segs" "CHR ''/''" n] by simp
  with split_on_join [OF assms(2,4)] show ?thesis by (simp add: url_parts_def)
qed

lemma rev_dropWhile_split:
  "xs = rev (dropWhile P (rev xs)) @ rev (takeWhile P (rev xs))"
proof -
  have "rev (rev (dropWhile P (rev xs)) @ rev (takeWhile P (rev xs))) = rev xs" by simp
  then have "rev (dropWhile P (rev xs)) @ rev (takeWhile P (rev xs)) = xs"
    by (simp only: rev_is_rev_conv)
  then show ?thesis by (rule sym)
qed

lemma strip_rstrip: "lstrip c = strip c @ rev (takeWhile isspace (rev (lstrip c)))"
  unfolding strip_def rstrip_def by (rule rev_dropWhile_split)

lemma strip_split:
  "c = takeWhile isspace c @ strip c @ rev (takeWhile isspace (rev (lstrip c)))"
proof -
  have "c = takeWhile isspace c @ lstrip c" by (simp add: lstrip_def)
  with strip_rstrip [of c] show ?thesis by metis
qed

lemma strip_ends:
  assumes "strip c \<noteq> []"
  shows "\<not> isspace (hd (strip c)) \<and> \<not> isspace (last (strip c))"
proof -
  have s: "strip c = rev (dropWhile isspace (rev (lstrip c)))"
    by (simp add: strip_def rstrip_def)
  from assms have d: "dropWhile isspace (rev (lstrip c)) \<noteq> []" unfolding s by simp
  then have "\<not> isspace (hd (dropWhile isspace (rev (lstrip c))))" by (rule hd_dropWhile)
  with d have l: "\<not> isspace (last (strip c))" unfolding s by (simp add: last_rev)
  from d have "lstrip c \<noteq> []" by auto
  then have "dropWhile isspace c \<noteq> []" unfolding lstrip_def .
  then have "\<not> isspace (hd (dropWhile isspace c))" by (rule hd_dropWhile)
  then have hm: "\<not> isspace (hd (lstrip c))" unfolding lstrip_def .
  from assms have "hd (strip c @ rev (takeWhile isspace (rev (lstrip c)))) = hd (strip c)"
    by simp
  with strip_rstrip [of c] have "hd (lstrip c) = hd (strip c)" by metis
  with hm l show ?thesis by simp
qed

lemma strip_spec:
  "\<exists>a b. c = a @ strip c @ b \<and> (\<forall>x\<in>set a. isspace x) \<and> (\<forall>x\<in>set b. isspace x)
         \<and> (strip c \<noteq> [] \<longrightarrow> \<not> isspace (hd (strip c)) \<and> \<not> isspace (last (strip c)))"
proof -
  have 2: "\<forall>x\<in>set (takeWhile isspace c). isspace x" by (auto dest: set_takeWhileD)
  have 3: "\<forall>x\<in>set (rev (takeWhile isspace (rev (lstrip c)))). isspace x"
    by (auto dest: set_takeWhileD)
  from strip_split [of c] 2 3 strip_ends [of c] show ?thesis by blast
qed

lemma dropWhile_keep: "xs \<noteq> [] \<Longrightarrow> \<not> P (hd xs) \<Longrightarrow> dropWhile P xs = xs"
  by (cases xs) simp_all

lemma strip_fixed:
  assumes "t = [] \<or> (\<not> isspace (hd t) \<and> \<not> isspace (last t))"
  shows "strip t = t"
proof (cases t)
  case Nil
  then show ?thesis by (simp add: strip_def lstrip_def rstrip_def)
next
  case (Cons a as)
  with assms have h: "\<not> isspace a" and l: "\<not> isspace (last t)" by simp_all
  from Cons h have 1: "dropWhile isspace t = t" by simp
  from Cons have "rev t \<noteq> []" by simp
  moreover from Cons have "hd (rev t) = last t" by (simp add: hd_rev)
  ultimately have "dropWhile isspace (rev t) = rev t" using l
    by (simp add: dropWhile_keep)
  with 1 show ?thesis by (simp add: strip_def lstrip_def rstrip_def)
qed

lemma strip_idem: "strip (strip c) = strip c"
  using strip_ends [of c] by (intro strip_fixed) blast

lemma candidate_text_cases:
  "candidate_text typed u r =
     (if \<exists>c. u = Some c \<and> c \<noteq> [] then
        (if strip (the u) \<noteq> [] then strip (the u) else strip typed)
      else if \<exists>c. r = Some c \<and> strip c \<noteq> [] then strip (the r)
      else strip typed)"
proof -
  have e: "strip [] = []" by (simp add: strip_def lstrip_def rstrip_def)
  show ?thesis
    by (cases u; cases r)
       (auto simp: candidate_text_def py_or_str_def prompt_if_missing_None_def strip_idem e
          Let_def)
qed

lemma strip_nonblank: "strip c \<noteq> [] \<longleftrightarrow> (\<exists>x\<in>set c. \<not> isspace x)"
proof
  assume "strip c \<noteq> []"
  with strip_ends [of c] have "\<not> isspace (hd (strip c))" "hd (strip c) \<in> set (strip c)"
    by simp_all
  moreover have "set (strip c) \<subseteq> set c"
    using strip_split [of c] by (metis Un_upper1 Un_upper2 set_append subset_trans)
  ultimately show "\<exists>x\<in>set c. \<not> isspace x" by blast
next
  assume "\<exists>x\<in>set c. \<not> isspace x"
  then obtain x where x: "x \<in> set c" "\<not> isspace x" by blast
  have 2: "\<forall>y\<in>set (takeWhile isspace c). isspace y" by (auto dest: set_takeWhileD)
  have 3: "\<forall>y\<in>set (rev (takeWhile isspace (rev (lstrip c)))). isspace y"
    by (auto dest: set_takeWhileD)
  show "strip c \<noteq> []"
  proof
    assume "strip c = []"
    with strip_split [of c]
    have "c = takeWhile isspace c @ rev (takeWhile isspace (rev (lstrip c)))" by simp
    then have "set c = set (takeWhile isspace c)
                 \<union> set (rev (takeWhile isspace (rev (lstrip c))))"
      by (metis set_append)
    with x 2 3 show False by blast
  qed
qed

lemma trimmed_candidate:
  "\<exists>a b c. (c = typed \<or> u = Some c \<or> r = Some c)
       \<and> c = a @ candidate_text typed u r @ b
       \<and> (\<forall>x\<in>set a. isspace x) \<and> (\<forall>x\<in>set b. isspace x)"
proof -
  have "\<exists>c. (c = typed \<or> u = Some c \<or> r = Some c) \<and> candidate_text typed u r = strip c"
    unfolding candidate_text_cases by (cases u; cases r) auto
  then obtain c where c: "c = typed \<or> u = Some c \<or> r = Some c"
    and t: "candidate_text typed u r = strip c" by blast
  from strip_spec [of c] t c show ?thesis by metis
qed

lemma candidate_text_ends:
  "candidate_text typed u r \<noteq> [] \<Longrightarrow>
   \<not> isspace (hd (candidate_text typed u r)) \<and> \<not> isspace (last (candidate_text typed u r))"
proof -
  have "\<exists>c. candidate_text typed u r = strip c"
    unfolding candidate_text_cases by (cases u; cases r) auto
  then obtain c where "candidate_text typed u r = strip c" by blast
  moreover assume "candidate_text typed u r \<noteq> []"
  ultimately show ?thesis using strip_ends [of c] by simp
qed

lemma resolve_username_segments:
  assumes "is_url (candidate_text typed u r)"
    "candidate_text typed u r = join_with CHR ''/'' segs @ replicate n CHR ''/''"
    "segs \<noteq> []" "last segs \<noteq> []" "\<forall>s\<in>set segs. CHR ''/'' \<notin> set s"
  shows "resolve_username typed u r
         = (case segment_after_p segs of Some s \<Rightarrow> s | None \<Rightarrow> last segs)"
  unfolding resolve_username_def username_of_text_url [OF assms(1)]
    url_parts_decomposed [OF assms(2-5)] ..

lemma candidate_explicit:
  assumes "u = Some c" "\<exists>x\<in>set c. \<not> isspace x"
  shows "\<exists>a b. c = a @ candidate_text typed u r @ b
             \<and> (\<forall>x\<in>set a. isspace x) \<and> (\<forall>x\<in>set b. isspace x)"
proof -
  from assms(2) have ne: "strip c \<noteq> []" by (simp add: strip_nonblank)
  have "strip [] = []" by (simp add: strip_def lstrip_def rstrip_def)
  with ne have "c \<noteq> []" by auto
  with assms(1) ne have t: "candidate_text typed u r = strip c"
    by (simp add: candidate_text_cases)
  from strip_spec [of c] obtain a b where "c = a @ strip c @ b"
    "\<forall>x\<in>set a. isspace x" "\<forall>x\<in>set b. isspace x" by blast
  then show ?thesis unfolding t by blast
qed

lemma candidate_positional:
  assumes "u = None \<or> u = Some []" "r = Some c" "\<exists>x\<in>set c. \<not> isspace x"
  shows "\<exists>a b. c = a @ candidate_text typed u r @ b
             \<and> (\<forall>x\<in>set a. isspace x) \<and> (\<forall>x\<in>set b. isspace x)"
proof -
  from assms(3) have ne: "strip c \<noteq> []" by (simp add: strip_nonblank)
  with assms(1,2) have t: "candidate_text typed u r = strip c"
    by (auto simp: candidate_text_cases)
  from strip_spec [of c] obtain a b where "c = a @ strip c @ b"
    "\<forall>x\<in>set a. isspace x" "\<forall>x\<in>set b. isspace x" by blast
  then show ?thesis unfolding t by blast
qed

lemma resolve_alice_explicit: "resolve_username typed (Some ''https://tryhackme.com/p/alice/'') r = ''alice''"
    by (simp add: resolve_username_def str_defs)
lemma resolve_alice_positional: "resolve_username typed None (Some ''https://tryhackme.com/p/alice/'') = ''alice''"
    by (simp add: resolve_username_def str_defs)
lemma resolve_bob_explicit: "resolve_username typed (Some ''bob'') r = ''bob''"
    by (simp add: resolve_username_def str_defs)
lemma resolve_bob_positional: "resolve_username typed None (Some ''bob'') = ''bob''"
    by (simp add: resolve_username_def str_defs)
lemma resolve_trailing_slashes: "resolve_username typed None (Some ''https://tryhackme.com/alice///'') = ''alice''"
    by (simp add: resolve_username_def str_defs)
lemma resolve_padded_name: "resolve_username typed None (Some ''  bob '') = ''bob''"
    by (simp add: resolve_username_def str_defs)

lemma resolve_username_url:
  "(\<exists>rest. candidate_text typed u r = ''http://'' @ rest
            \<or> candidate_text typed u r = ''https://'' @ rest) \<longrightarrow>
      (\<exists>segs n. candidate_text typed u r = join_with CHR ''/'' segs @ replicate n CHR ''/''
          \<and> segs \<noteq> [] \<and> last segs \<noteq> [] \<and> (\<forall>s\<in>set segs. CHR ''/'' \<notin> set s))
      \<and> (\<forall>segs n. candidate_text typed u r = join_with CHR ''/'' segs @ replicate n CHR ''/''
          \<and> segs \<noteq> [] \<and> last segs \<noteq> [] \<and> (\<forall>s\<in>set segs. CHR ''/'' \<notin> set s) \<longrightarrow>
          resolve_username typed u r
            = (case segment_after_p segs of Some s \<Rightarrow> s | None \<Rightarrow> last segs))"
proof (intro impI conjI allI)
  assume "\<exists>rest. candidate_text typed u r = ''http://'' @ rest
            \<or> candidate_text typed u r = ''https://'' @ rest"
  then have url: "is_url (candidate_text typed u r)" unfolding is_url_iff .
  from url_decomposition [OF url]
  show "\<exists>segs n. candidate_text typed u r = join_with CHR ''/'' segs @ replicate n CHR ''/''
          \<and> segs \<noteq> [] \<and> last segs \<noteq> [] \<and> (\<forall>s\<in>set segs. CHR ''/'' \<notin> set s)" .
  fix segs n
  assume d: "candidate_text typed u r = join_with CHR ''/'' segs @ replicate n CHR ''/''
          \<and> segs \<noteq> [] \<and> last segs \<noteq> [] \<and> (\<forall>s\<in>set segs. CHR ''/'' \<notin> set s)"
  then have d1: "candidate_text typed u r = join_with CHR ''/'' segs @ replicate n CHR ''/''"
    and d2: "segs \<noteq> []" and d3: "last segs \<noteq> []"
    and d4: "\<forall>s\<in>set segs. CHR ''/'' \<notin> set s" by simp_all
  from resolve_username_segments [OF url d1 d2 d3 d4]
  show "resolve_username typed u r
            = (case segment_after_p segs of Some s \<Rightarrow> s | None \<Rightarrow> last segs)" .
qed

lemma resolve_username_plain:
  "\<not> (\<exists>rest. candidate_text typed u r = ''http://'' @ rest
              \<or> candidate_text typed u r = ''https://'' @ rest) \<longrightarrow>
        resolve_username typed u r = candidate_text typed u r"
proof
  assume "\<not> (\<exists>rest. candidate_text typed u r = ''http://'' @ rest
              \<or> candidate_text typed u r = ''https://'' @ rest)"
  then have "\<not> is_url (candidate_text typed u r)" unfolding is_url_iff .
  then show "resolve_username typed u r = candidate_text typed u r"
    by (simp add: resolve_username_def username_of_text_def is_url_def)
qed

lemma candidate_text_ends_imp:
  "candidate_text typed u r \<noteq> [] \<longrightarrow>
        \<not> isspace (hd (candidate_text typed u r))
        \<and> \<not> isspace (last (candidate_text typed u r))"
  by (rule impI) (rule candidate_text_ends)

lemma candidate_explicit_all:
  "\<forall>c. u = Some c \<and> (\<exists>x\<in>set c. \<not> isspace x) \<longrightarrow>
          (\<exists>a b. c = a @ candidate_text typed u r @ b
             \<and> (\<forall>x\<in>set a. isspace x) \<and> (\<forall>x\<in>set b. isspace x))"
proof (intro allI impI)
  fix c assume a: "u = Some c \<and> (\<exists>x\<in>set c. \<not> isspace x)"
  then have 1: "u = Some c" by (rule conjunct1)
  from a have 2: "\<exists>x\<in>set c. \<not> isspace x" by (rule conjunct2)
  from 1 2 show "\<exists>a b. c = a @ candidate_text typed u r @ b
             \<and> (\<forall>x\<in>set a. isspace x) \<and> (\<forall>x\<in>set b. isspace x)"
    by (rule candidate_explicit)
qed

lemma candidate_positional_all:
  "\<forall>c. (u = None \<or> u = Some []) \<and> r = Some c \<and> (\<exists>x\<in>set c. \<not> isspace x) \<longrightarrow>
          (\<exists>a b. c = a @ candidate_text typed u r @ b
             \<and> (\<forall>x\<in>set a. isspace x) \<and> (\<forall>x\<in>set b. isspace x))"
proof (intro allI impI)
  fix c assume a: "(u = None \<or> u = Some []) \<and> r = Some c \<and> (\<exists>x\<in>set c. \<not> isspace x)"
  from a have 1: "u = None \<or> u = Some []" by (rule conjunct1)
  from a have 2: "r = Some c" by (rule conjunct2 [THEN conjunct1])
  from a have 3: "\<exists>x\<in>set c. \<not> isspace x" by (rule conjunct2 [THEN conjunct2])
  from 1 2 3 show "\<exists>a b. c = a @ candidate_text typed u r @ b
             \<and> (\<forall>x\<in>set a. isspace x) \<and> (\<forall>x\<in>set b. isspace x)"
    by (rule candidate_positional)
qed

text \<open>
  Claim C7. The trimmed candidate is the candidate without its leading and trailing
  whitespace. When it starts with \<open>http://\<close> or \<open>https://\<close> it is, in exactly one way,
  a list of slash-free segments joined by \<open>/\<close>, the last one not empty, followed by
  trailing slashes; the result is the segment that immediately follows a \<open>p\<close>
  segment when there is one, and the last segment otherwise. Any other candidate is
  returned trimmed. \<open>https://tryhackme.com/p/alice/\<close> gives \<open>alice\<close> and \<open>bob\<close>
  gives \<open>bob\<close>, as the explicit value or as the positional input.
\<close>

theorem resolve_username_url_extraction:
  "((\<exists>rest. candidate_text typed u r = ''http://'' @ rest
            \<or> candidate_text typed u r = ''https://'' @ rest) \<longrightarrow>
      (\<exists>segs n. candidate_text typed u r = join_with CHR ''/'' segs @ replicate n CHR ''/''
          \<and> segs \<noteq> [] \<and> last segs \<noteq> [] \<and> (\<forall>s\<in>set segs. CHR ''/'' \<notin> set s))
      \<and> (\<forall>segs n. candidate_text typed u r = join_with CHR ''/'' segs @ replicate n CHR ''/''
          \<and> segs \<noteq> [] \<and> last segs \<noteq> [] \<and> (\<forall>s\<in>set segs. CHR ''/'' \<notin> set s) \<longrightarrow>
          resolve_username typed u r
            = (case segment_after_p segs of Some s \<Rightarrow> s | None \<Rightarrow> last segs)))
   \<and> (\<not> (\<exists>rest. candidate_text typed u r = ''http://'' @ rest
              \<or> candidate_text typed u r = ''https://'' @ rest) \<longrightarrow>
        resolve_username typed u r = candidate_text typed u r)
   \<and> (\<exists>a b c. (c = typed \<or> u = Some c \<or> r = Some c)
          \<and> c = a @ candidate_text typed u r @ b
          \<and> (\<forall>x\<in>set a. isspace x) \<and> (\<forall>x\<in>set b. isspace x))
   \<and> (candidate_text typed u r \<noteq> [] \<longrightarrow>
        \<not> isspace (hd (candidate_text typed u r))
        \<and> \<not> isspace (last (candidate_text typed u r)))
   \<and> (\<forall>c. u = Some c \<and> (\<exists>x\<in>set c. \<not> isspace x) \<longrightarrow>
          (\<exists>a b. c = a @ candidate_text typed u r @ b
             \<and> (\<forall>x\<in>set a. isspace x) \<and> (\<forall>x\<in>set b. isspace x)))
   \<and> (\<forall>c. (u = None \<or> u = Some []) \<and> r = Some c \<and> (\<exists>x\<in>set c. \<not> isspace x) \<longrightarrow>
          (\<exists>a b. c = a @ candidate_text typed u r @ b
             \<and> (\<forall>x\<in>set a. isspace x) \<and> (\<forall>x\<in>set b. isspace x)))
   \<and> resolve_username typed (Some ''https://tryhackme.com/p/alice/'') r = ''alice''
   \<and> resolve_username typed None (Some ''https://tryhackme.com/p/alice/'') = ''alice''
   \<and> resolve_username typed (Some ''bob'') r = ''bob''
   \<and> resolve_username typed None (Some ''bob'') = ''bob''
   \<and> resolve_username typed None (Some ''https://tryhackme.com/alice///'') = ''alice''
   \<and> resolve_username typed None (Some ''  bob '') = ''bob''"
proof -
  note parts = resolve_username_url [of typed u r] resolve_username_plain [of typed u r] trimmed_candidate [of typed u r]
    candidate_text_ends_imp [of typed u r] candidate_explicit_all [of u typed r] candidate_positional_all [of u r typed]
    resolve_alice_explicit [of typed r] resolve_alice_positional [of typed] resolve_bob_explicit [of typed r] resolve_bob_positional [of typed] resolve_trailing_slashes [of typed] resolve_padded_name [of typed]
  show ?thesis by (intro conjI parts)
qed

theorem resolve_username_url_extraction_witness:
  "candidate_text '''' None (Some ''  http://tryhackme.com/r/carol// '')
     = ''http://'' @ ''tryhackme.com/r/carol//''
   \<and> candidate_text '''' None (Some ''  http://tryhackme.com/r/carol// '')
     = join_with CHR ''/'' [''http:'', '''', ''tryhackme.com'', ''r'', ''carol'']
         @ replicate 2 CHR ''/''
   \<and> resolve_username '''' None (Some ''  http://tryhackme.com/r/carol// '') = ''carol''
   \<and> candidate_text '''' (Some ''https://x.org/p/erin/more/'') (Some ''zed'')
     = join_with CHR ''/'' [''https:'', '''', ''x.org'', ''p'', ''erin'', ''more'']
         @ replicate 1 CHR ''/''
   \<and> resolve_username '''' (Some ''https://x.org/p/erin/more/'') (Some ''zed'') = ''erin''
   \<and> \<not> (\<exists>rest. candidate_text '' frank '' (Some '' '') (Some ''zed'') = ''http://'' @ rest
            \<or> candidate_text '' frank '' (Some '' '') (Some ''zed'') = ''https://'' @ rest)
   \<and> resolve_username '' frank '' (Some '' '') (Some ''zed'') = ''frank''
   \<and> resolve_username '''' (Some '''') (Some '' dave '') = ''dave''"
proof -
  let ?c = "Some ''  http://tryhackme.com/r/carol// ''"
  let ?cs = "[''http:'', '''', ''tryhackme.com'', ''r'', ''carol'']"
  let ?e = "Some ''https://x.org/p/erin/more/''"
  let ?es = "[''https:'', '''', ''x.org'', ''p'', ''erin'', ''more'']"
  have c1: "candidate_text '''' None ?c = ''http://'' @ ''tryhackme.com/r/carol//''"
    by (simp add: str_defs)
  then have cu: "\<exists>rest. candidate_text '''' None ?c = ''http://'' @ rest
                   \<or> candidate_text '''' None ?c = ''https://'' @ rest"
    by (intro exI disjI1)
  have c2: "candidate_text '''' None ?c = join_with CHR ''/'' ?cs @ replicate 2 CHR ''/''"
    by (simp add: str_defs numeral_2_eq_2)
  have c3: "?cs \<noteq> [] \<and> last ?cs \<noteq> [] \<and> (\<forall>s\<in>set ?cs. CHR ''/'' \<notin> set s)"
    by simp
  have c4: "segment_after_p ?cs = None" by simp
  note tc = resolve_username_url_extraction [of "''''" None ?c]
  from tc [THEN conjunct1, THEN mp, OF cu, THEN conjunct2, rule_format, OF conjI, OF c2 c3]
  have "resolve_username '''' None ?c
          = (case segment_after_p ?cs of Some s \<Rightarrow> s | None \<Rightarrow> last ?cs)" .
  then have r1: "resolve_username '''' None ?c = ''carol''" unfolding c4 by simp
  have e1: "candidate_text '''' ?e (Some ''zed'') = ''https://'' @ ''x.org/p/erin/more/''"
    by (simp add: str_defs)
  then have eu: "\<exists>rest. candidate_text '''' ?e (Some ''zed'') = ''http://'' @ rest
                   \<or> candidate_text '''' ?e (Some ''zed'') = ''https://'' @ rest"
    by (intro exI disjI2)
  have e2: "candidate_text '''' ?e (Some ''zed'') = join_with CHR ''/'' ?es @ replicate 1 CHR ''/''"
    by (simp add: str_defs)
  have e3: "?es \<noteq> [] \<and> last ?es \<noteq> [] \<and> (\<forall>s\<in>set ?es. CHR ''/'' \<notin> set s)"
    by simp
  have e4: "segment_after_p ?es = Some ''erin''" by simp
  note te = resolve_username_url_extraction [of "''''" ?e "Some ''zed''"]
  from te [THEN conjunct1, THEN mp, OF eu, THEN conjunct2, rule_format, OF conjI, OF e2 e3]
  have "resolve_username '''' ?e (Some ''zed'')
          = (case segment_after_p ?es of Some s \<Rightarrow> s | None \<Rightarrow> last ?es)" .
  then have r2: "resolve_username '''' ?e (Some ''zed'') = ''erin''" unfolding e4 by simp
  have f1: "candidate_text '' frank '' (Some '' '') (Some ''zed'') = ''frank''"
    by (simp add: str_defs)
  have f2: "\<not> (\<exists>rest. candidate_text '' frank '' (Some '' '') (Some ''zed'') = ''http://'' @ rest
            \<or> candidate_text '' frank '' (Some '' '') (Some ''zed'') = ''https://'' @ rest)"
    unfolding f1 by simp
  note tf = resolve_username_url_extraction [of "'' frank ''" "Some '' ''" "Some ''zed''"]
  from tf [THEN conjunct2, THEN conjunct1, THEN mp, OF f2]
  have r3: "resolve_username '' frank '' (Some '' '') (Some ''zed'') = ''frank''"
    unfolding f1 .
  have r4: "resolve_username '''' (Some '''') (Some '' dave '') = ''dave''"
    by (simp add: resolve_username_def str_defs)
  show ?thesis by (intro conjI c1 c2 r1 e2 r2 f2 r3 r4)
qed

text \<open>
  Claim C10, as stated, fails: a URL whose last segment is \<open>p\<close> and that has an earlier
  \<open>p\<close> segment resolves to the segment after the earlier one.
\<close>

theorem resolve_username_last_p_counterexample:
  "is_url (candidate_text '''' None (Some ''https://tryhackme.com/p/alice/p''))
   \<and> last (url_parts (candidate_text '''' None (Some ''https://tryhackme.com/p/alice/p''))) = ''p''
   \<and> resolve_username '''' None (Some ''https://tryhackme.com/p/alice/p'') = ''alice''
   \<and> resolve_username '''' None (Some ''https://tryhackme.com/p/alice/p'') \<noteq> ''p''"
  by (simp add: resolve_username_def str_defs)

text \<open>
  Claim C10, amended. For a URL whose last segment, after stripping trailing slashes, is
  \<open>p\<close>: when no earlier segment is \<open>p\<close> the result is \<open>p\<close>, by the last-segment
  fallback; when an earlier segment is \<open>p\<close> the result is the segment that follows the
  first such segment.
\<close>

theorem resolve_username_last_p:
  "is_url (candidate_text typed u r) \<Longrightarrow>
   last (url_parts (candidate_text typed u r)) = ''p'' \<Longrightarrow>
   resolve_username typed u r =
     (if ''p'' \<in> set (butlast (url_parts (candidate_text typed u r)))
      then url_parts (candidate_text typed u r)
             ! (list_index (url_parts (candidate_text typed u r)) ''p'' + 1)
      else ''p'')"
proof -
  assume url: "is_url (candidate_text typed u r)"
    and lp: "last (url_parts (candidate_text typed u r)) = ''p''"
  define parts where "parts = url_parts (candidate_text typed u r)"
  have ne: "parts \<noteq> []" by (simp add: parts_def url_parts_def split_on_nonempty)
  have res: "resolve_username typed u r =
      (if ''p'' \<in> set parts \<and> list_index parts ''p'' + 1 < length parts
       then parts ! (list_index parts ''p'' + 1) else last parts)"
    using url by (simp add: resolve_username_def username_of_text_def is_url_def
        url_parts_def parts_def Let_def)
  show ?thesis
  proof (cases "''p'' \<in> set (butlast parts)")
    case True
    then have "''p'' \<in> set parts" by (meson in_set_butlastD)
    with True res list_index_butlast [OF True] show ?thesis
      by (simp add: parts_def)
  next
    case False
    from list_index_only_last [OF ne False] have "\<not> list_index parts ''p'' + 1 < length parts"
      by simp
    with False res lp show ?thesis by (simp add: parts_def)
  qed
qed

theorem resolve_username_last_p_witness:
  "is_url (candidate_text '''' None (Some ''https://tryhackme.com/p/''))
   \<and> last (url_parts (candidate_text '''' None (Some ''https://tryhackme.com/p/''))) = ''p''
   \<and> resolve_username '''' None (Some ''https://tryhackme.com/p/'') = ''p''
   \<and> resolve_username '''' None (Some ''https://tryhackme.com/p'') = ''p''"
proof -
  have a: "is_url (candidate_text '''' None (Some ''https://tryhackme.com/p/''))"
    by (simp add: str_defs)
  have b: "last (url_parts (candidate_text '''' None (Some ''https://tryhackme.com/p/''))) = ''p''"
    by (simp add: str_defs)
  have c: "''p'' \<notin> set (butlast (url_parts (candidate_text '''' None
             (Some ''https://tryhackme.com/p/''))))"
    by (simp add: str_defs)
  have a': "is_url (candidate_text '''' None (Some ''https://tryhackme.com/p''))"
    by (simp add: str_defs)
  have b': "last (url_parts (candidate_text '''' None (Some ''https://tryhackme.com/p''))) = ''p''"
    by (simp add: str_defs)
  have c': "''p'' \<notin> set (butlast (url_parts (candidate_text '''' None
             (Some ''https://tryhackme.com/p''))))"
    by (simp add: str_defs)
  from resolve_username_last_p [OF a b] resolve_username_last_p [OF a' b'] c c' a b
  show ?thesis by simp
qed

section \<open>Properties of the year resolver\<close>

lemma resolve_year_None: "resolve_year today PyNone = Inr (year today)"
  by (simp add: resolve_year_def)

lemma resolve_year_opt: "resolve_year today (opt_pyval v) = Inr (case v of Some y \<Rightarrow> y | None \<Rightarrow> year today)"
  by (cases v) (simp_all add: resolve_year_def opt_pyval_def)

lemma parse_items_acc:
  "parse_items items acc =
     (case parse_items items [] of Inl e \<Rightarrow> Inl e | Inr ns \<Rightarrow> Inr (acc @ ns))"
proof (induction items arbitrary: acc)
  case Nil
  show ?case by simp
next
  case (Cons item items)
  show ?case
  proof (cases "strip item = []")
    case True
    then show ?thesis using Cons.IH [of acc] by simp
  next
    case False
    show ?thesis
    proof (cases "int_of_str (strip item)")
      case (Inl e)
      with False show ?thesis by simp
    next
      case (Inr n)
      with False Cons.IH [of "acc @ [n]"] Cons.IH [of "[n]"] show ?thesis
        by (simp split: sum.splits)
    qed
  qed
qed

lemma parse_items_parsed:
  "parse_items items [] = Inr ns \<Longrightarrow>
   map int_of_str (filter (\<lambda>i. i \<noteq> []) (map strip items)) = map Inr ns"
proof (induction items arbitrary: ns)
  case Nil
  then show ?case by simp
next
  case (Cons item items)
  show ?case
  proof (cases "strip item = []")
    case True
    with Cons show ?thesis by simp
  next
    case False
    show ?thesis
    proof (cases "int_of_str (strip item)")
      case (Inl e)
      with False Cons.prems show ?thesis by simp
    next
      case (Inr n)
      with False Cons.prems have "parse_items items [n] = Inr ns" by simp
      then obtain ms where ms: "parse_items items [] = Inr ms" and ns: "ns = n # ms"
        by (subst (asm) parse_items_acc) (auto split: sum.splits)
      from Cons.IH [OF ms] False Inr ns show ?thesis by simp
    qed
  qed
qed

lemma years_from_list_parsed:
  "years_from_list a = Inr ls \<Longrightarrow> args_years a = Some s \<Longrightarrow>
   map int_of_str (filter (\<lambda>i. i \<noteq> []) (map strip (split_on CHR '','' s))) = map Inr ls"
  by (cases "s = []") (auto simp: years_from_list_def strip_def rstrip_def lstrip_def
      dest: parse_items_parsed)

lemma extend_with_range_eq:
  "\<exists>rs. extend_with_range today a ys = Inr (ys @ rs) \<and> set rs = range_years today a"
  by (cases "args_year_start a"; cases "args_year_end a")
     (auto simp: extend_with_range_def range_years_def resolve_year_None Let_def
           min_def max_def)

lemma parse_years_set:
  assumes "years_from_list a = Inr ls"
  shows "parse_years today a =
     Inr (sorted_list_of_set
            (if set ls \<union> range_years today a = {} then {single_year today a}
             else set ls \<union> range_years today a))"
proof -
  obtain rs where rs: "extend_with_range today a ls = Inr (ls @ rs)"
    and srs: "set rs = range_years today a"
    using extend_with_range_eq by blast
  show ?thesis
  proof (cases "ls @ rs = []")
    case True
    then have "ls = []" "rs = []" by simp_all
    with assms rs srs show ?thesis
      by (simp add: parse_years_def resolve_year_opt single_year_def)
  next
    case False
    then have "set ls \<union> range_years today a \<noteq> {}" using srs by auto
    with False assms rs srs show ?thesis
      by (auto simp: parse_years_def)
  qed
qed

lemma parse_years_Inr:
  "parse_years today a = Inr ys \<Longrightarrow>
   \<exists>ls. years_from_list a = Inr ls"
  by (cases "years_from_list a") (simp_all add: parse_years_def)

lemma finite_range_years: "finite (range_years today a)"
  by (simp add: range_years_def Let_def)

lemma parse_years_sort:
  "parse_years today a =
     (case years_from_list a of
        Inl e \<Rightarrow> Inl e
      | Inr years \<Rightarrow>
          (case extend_with_range today a years of
             Inl e \<Rightarrow> Inl e
           | Inr years \<Rightarrow>
               (if years = [] then
                  (case resolve_year today (opt_pyval (args_year a)) of
                     Inl e \<Rightarrow> Inl e
                   | Inr y \<Rightarrow> Inr [y])
                else Inr (sort (remdups years)))))"
  by (simp add: parse_years_def sorted_list_of_set_sort_remdups del: set_remdups
        split: sum.splits)

lemmas years_eval = parse_years_sort years_from_list_def extend_with_range_def
  resolve_year_def opt_pyval_def int_of_str_def parse_decimal_def is_digit_def digit_val_def
  strip_def lstrip_def rstrip_def isspace_def int_strip_def int_isspace_def Let_def

text \<open>
  Claim C5, as stated, fails: a single year value supplied together with a list or a
  range is not in the result.
\<close>

theorem parse_years_sources_counterexample:
  "parse_years (Date 2026 11 4)
     \<lparr>args_input = None, args_username = None, args_year = Some 2020,
      args_years = Some ''2023'', args_year_start = None, args_year_end = None\<rparr> = Inr [2023]
   \<and> parse_years (Date 2026 11 4)
     \<lparr>args_input = None, args_username = None, args_year = Some 2020,
      args_years = None, args_year_start = Some 2022, args_year_end = Some 2023\<rparr>
       = Inr [2022, 2023]
   \<and> (2020::int) \<notin> set [2023] \<and> (2020::int) \<notin> set [2022, 2023]"
  by (simp add: years_eval)

text \<open>
  Claim C5, amended. The comma-separated list (each non-blank item parsed as an integer)
  and the start/end range (a missing endpoint is the current year, the endpoints are
  put in ascending order, the range is inclusive) are combined: the result holds the
  years of both. The single year value is a fallback: it is the result, defaulting to
  the current year when absent, only when the list and the range give no year.
\<close>

theorem parse_years_sources:
  "years_from_list a = Inr ls \<Longrightarrow>
   parse_years today a =
     Inr (sorted_list_of_set
            (if set ls \<union> range_years today a = {} then {single_year today a}
             else set ls \<union> range_years today a))
   \<and> (\<forall>s. args_years a = Some s \<longrightarrow>
          map int_of_str (filter (\<lambda>i. i \<noteq> []) (map strip (split_on CHR '','' s))) = map Inr ls)"
  using parse_years_set years_from_list_parsed by blast

theorem parse_years_sources_witness:
  "years_from_list
     \<lparr>args_input = None, args_username = None, args_year = Some 2019,
      args_years = Some ''2023, ,2025'', args_year_start = Some 2022, args_year_end = None\<rparr>
     = Inr [2023, 2025]
   \<and> sorted_list_of_set
        (if set [2023, 2025] \<union> range_years (Date 2024 6 1)
              \<lparr>args_input = None, args_username = None, args_year = Some 2019,
               args_years = Some ''2023, ,2025'', args_year_start = Some 2022,
               args_year_end = None\<rparr> = {}
         then {single_year (Date 2024 6 1)
              \<lparr>args_input = None, args_username = None, args_year = Some 2019,
               args_years = Some ''2023, ,2025'', args_year_start = Some 2022,
               args_year_end = None\<rparr>}
         else set [2023, 2025] \<union> range_years (Date 2024 6 1)
              \<lparr>args_input = None, args_username = None, args_year = Some 2019,
               args_years = Some ''2023, ,2025'', args_year_start = Some 2022,
               args_year_end = None\<rparr>)
       = [2022, 2023, 2024, 2025]
   \<and> map int_of_str (filter (\<lambda>i. i \<noteq> []) (map strip (split_on CHR '','' ''2023, ,2025'')))
       = map Inr [2023, 2025]"
proof -
  let ?a = "\<lparr>args_input = None, args_username = None, args_year = Some 2019,
      args_years = Some ''2023, ,2025'', args_year_start = Some 2022, args_year_end = None\<rparr>"
  have h: "years_from_list ?a = Inr [2023, 2025]"
    by (simp add: years_eval)
  have p: "parse_years (Date 2024 6 1) ?a = Inr [2022, 2023, 2024, 2025]"
    by (simp add: years_eval)
  have s: "args_years ?a = Some ''2023, ,2025''" by simp
  from parse_years_sources [OF h, of "Date 2024 6 1"] p s h show ?thesis
    by (metis sum.inject(2))
qed

text \<open>
  Claim C8. Whatever the inputs, a returned list of years is sorted ascending and has
  no duplicates, and it holds the whole inclusive range between the two endpoints,
  put in ascending order. With \<open>years = "2023,2024"\<close> alone the result is
  \<open>[2023, 2024]\<close>; with start 2022 and end 2020 it is \<open>[2020, 2021, 2022]\<close>.
\<close>

theorem parse_years_normalized:
  "(parse_years today a = Inr ys \<longrightarrow>
      sorted ys \<and> distinct ys \<and> range_years today a \<subseteq> set ys)
   \<and> (years_from_list a = Inr [] \<and> args_year_start a = Some s \<and> args_year_end a = Some e \<longrightarrow>
        parse_years today a = Inr [min s e .. max s e])
   \<and> parse_years today
        \<lparr>args_input = i, args_username = u, args_year = None,
         args_years = Some ''2023,2024'', args_year_start = None, args_year_end = None\<rparr>
       = Inr [2023, 2024]
   \<and> parse_years today
        \<lparr>args_input = i, args_username = u, args_year = y,
         args_years = None, args_year_start = Some 2022, args_year_end = Some 2020\<rparr>
       = Inr [2020, 2021, 2022]"
proof (intro conjI impI)
  assume r: "parse_years today a = Inr ys"
  then obtain ls where ls: "years_from_list a = Inr ls" using parse_years_Inr by blast
  from parse_years_set [OF ls, of today] r
  have ys: "ys = sorted_list_of_set
            (if set ls \<union> range_years today a = {} then {single_year today a}
             else set ls \<union> range_years today a)" by simp
  show "sorted ys" by (simp add: ys)
  show "distinct ys" by (simp add: ys)
  show "range_years today a \<subseteq> set ys"
    by (auto simp: ys finite_range_years)
next
  assume h: "years_from_list a = Inr [] \<and> args_year_start a = Some s \<and> args_year_end a = Some e"
  then have l: "years_from_list a = Inr []" by simp
  from h have "range_years today a = {min s e .. max s e}"
    by (simp add: range_years_def)
  moreover have "{min s e .. max s e} \<noteq> {}" by (simp add: min_def max_def)
  moreover have "sorted_list_of_set {min s e .. max s e} = [min s e .. max s e]"
    using sorted_list_of_set.idem_if_sorted_distinct [of "[min s e .. max s e]"]
    by simp
  ultimately show "parse_years today a = Inr [min s e .. max s e]"
    using parse_years_set [OF l, of today] by simp
next
  show "parse_years today
        \<lparr>args_input = i, args_username = u, args_year = None,
         args_years = Some ''2023,2024'', args_year_start = None, args_year_end = None\<rparr>
       = Inr [2023, 2024]"
    by (simp add: years_eval)
  show "parse_years today
        \<lparr>args_input = i, args_username = u, args_year = y,
         args_years = None, args_year_start = Some 2022, args_year_end = Some 2020\<rparr>
       = Inr [2020, 2021, 2022]"
    by (simp add: years_eval)
qed

theorem parse_years_normalized_witness:
  "parse_years (Date 2024 6 1)
     \<lparr>args_input = None, args_username = None, args_year = None,
      args_years = Some ''2021,2021,2019'', args_year_start = Some 2022,
      args_year_end = Some 2020\<rparr> = Inr [2019, 2020, 2021, 2022]
   \<and> sorted [2019, 2020, 2021, 2022 :: int] \<and> distinct [2019, 2020, 2021, 2022 :: int]
   \<and> years_from_list
     \<lparr>args_input = None, args_username = None, args_year = None,
      args_years = None, args_year_start = Some 2022,
      args_year_end = Some 2020\<rparr> = Inr []
   \<and> parse_years (Date 2024 6 1)
     \<lparr>args_input = None, args_username = None, args_year = None,
      args_years = None, args_year_start = Some 2022,
      args_year_end = Some 2020\<rparr> = Inr [min 2022 2020 .. max 2022 2020]"
proof -
  let ?a = "\<lparr>args_input = None, args_username = None, args_year = None,
      args_years = Some ''2021,2021,2019'', args_year_start = Some 2022,
      args_year_end = Some 2020\<rparr>"
  let ?b = "\<lparr>args_input = None, args_username = None, args_year = None,
      args_years = None, args_year_start = Some 2022,
      args_year_end = Some 2020\<rparr>"
  have p: "parse_years (Date 2024 6 1) ?a = Inr [2019, 2020, 2021, 2022]"
    by (simp add: years_eval)
  have q: "years_from_list ?b = Inr [] \<and> args_year_start ?b = Some 2022
            \<and> args_year_end ?b = Some 2020"
    by (simp add: years_eval)
  from parse_years_normalized [of "Date 2024 6 1" ?a "[2019, 2020, 2021, 2022]"] p
  have 1: "sorted [2019, 2020, 2021, 2022 :: int] \<and> distinct [2019, 2020, 2021, 2022 :: int]"
    by blast
  from parse_years_normalized [of "Date 2024 6 1" ?b _ 2022 2020] q
  have 2: "parse_years (Date 2024 6 1) ?b = Inr [min 2022 2020 .. max 2022 2020]"
    by blast
  from p q 1 2 show ?thesis by blast
qed

section \<open>Calendar facts\<close>

lemma days_in_month_bounds: "28 \<le> days_in_month y m \<and> days_in_month y m \<le> 31"
  by (simp add: days_in_month_def)

lemma date_lt_irrefl: "\<not> date_lt a a"
  by (simp add: date_lt_def)

lemma date_lt_trans: "date_lt a b \<Longrightarrow> date_lt b c \<Longrightarrow> date_lt a c"
  by (auto simp: date_lt_def)

lemma date_lt_asym: "date_lt a b \<Longrightarrow> \<not> date_lt b a"
  by (auto simp: date_lt_def)

lemma date_lt_total: "date_lt a b \<or> a = b \<or> date_lt b a"
  by (cases a; cases b) (auto simp: date_lt_def)

lemma date_le_refl: "date_le a a"
  by (simp add: date_le_def)

lemma date_le_trans: "date_le a b \<Longrightarrow> date_le b c \<Longrightarrow> date_le a c"
  by (auto simp: date_le_def dest: date_lt_trans)

lemma not_date_le: "\<not> date_le a b \<longleftrightarrow> date_lt b a"
  using date_lt_total [of a b] date_lt_asym [of a b] date_lt_irrefl [of a]
  by (auto simp: date_le_def)

lemma date_min_le: "date_le eoy today \<Longrightarrow> date_min today eoy = eoy"
  using date_lt_asym [of eoy today]
  by (auto simp: date_min_def date_le_def)

lemma dt_date_Inr: "dt_date y m d = Inr x \<Longrightarrow> x = Date y m d \<and> valid_date x"
  by (auto simp: dt_date_def valid_date_def split: if_splits)

lemma dt_date_valid: "valid_date (Date y m d) \<Longrightarrow> dt_date y m d = Inr (Date y m d)"
  by (auto simp: dt_date_def valid_date_def)

lemma dt_date_year:
  "dt_date y 1 1 = (if MINYEAR \<le> y \<and> y \<le> MAXYEAR then Inr (Date y 1 1)
                    else Inl (ValueError ''year is out of range''))"
  "dt_date y 12 31 = (if MINYEAR \<le> y \<and> y \<le> MAXYEAR then Inr (Date y 12 31)
                    else Inl (ValueError ''year is out of range''))"
  by (auto simp: dt_date_def days_in_month_def)

lemma add_one_day_cases:
  "add_one_day d = Inr n \<Longrightarrow>
     (day d < days_in_month (year d) (month d) \<and> n = Date (year d) (month d) (day d + 1))
   \<or> (\<not> day d < days_in_month (year d) (month d) \<and> month d < 12
        \<and> n = Date (year d) (month d + 1) 1)
   \<or> (\<not> day d < days_in_month (year d) (month d) \<and> \<not> month d < 12 \<and> year d < MAXYEAR
        \<and> n = Date (year d + 1) 1 1)"
  by (auto simp: add_one_day_def split: if_splits)

lemma days_in_month_ge: "1 \<le> days_in_month y m"
  using days_in_month_bounds [of y m] by linarith

lemma days_in_month_le: "days_in_month y m \<le> 31"
  using days_in_month_bounds [of y m] by linarith

lemma add_one_day_valid:
  assumes "valid_date d" "add_one_day d = Inr n"
  shows "valid_date n \<and> date_lt d n"
  using add_one_day_cases [OF assms(2)] assms(1) days_in_month_ge [of "year d" "month d + 1"]
    days_in_month_ge [of "year d + 1" 1]
  by (auto simp: valid_date_def date_lt_def)

lemma add_one_day_no_gap:
  assumes "valid_date a" "valid_date e" "date_lt a e" "add_one_day a = Inr n"
  shows "date_le n e"
  using add_one_day_cases [OF assms(4)] assms(1,2,3)
  by (cases a; cases e) (auto simp: valid_date_def date_lt_def date_le_def)

lemma add_one_day_Inl:
  "valid_date d \<Longrightarrow> (\<exists>err. add_one_day d = Inl err) \<longleftrightarrow> d = Date MAXYEAR 12 31"
  using days_in_month_le [of "year d" "month d"]
  by (cases d) (auto simp: add_one_day_def valid_date_def days_in_month_def [of _ 12])

lemma add_one_day_overflow:
  "add_one_day d = Inl err \<Longrightarrow> err = OverflowError ''date value out of range''"
  by (auto simp: add_one_day_def split: if_splits)

lemma date_max: "valid_date d \<Longrightarrow> date_le d (Date MAXYEAR 12 31)"
  using days_in_month_le [of "year d" "month d"]
  by (cases d) (auto simp: valid_date_def date_le_def date_lt_def)

lemma days_before_month_step:
  "1 \<le> m \<Longrightarrow> days_before_month y (m + 1) = days_before_month y m + days_in_month y m"
  by (simp add: days_before_month_def upto_rec2)

lemma days_before_month_1: "days_before_month y 1 = 0"
  by (simp add: days_before_month_def)

lemma days_before_month_12:
  "days_before_month y 12 = days_in_year y - 31"
  by (simp add: days_before_month_def days_in_month_def days_in_year_def upto_rec1)

lemma add_one_day_doy:
  assumes "valid_date d" "add_one_day d = Inr n" "year n = year d"
  shows "day_of_year n = day_of_year d + 1"
proof -
  from add_one_day_cases [OF assms(2)] assms(3)
  consider "day d < days_in_month (year d) (month d)" "n = Date (year d) (month d) (day d + 1)"
    | "\<not> day d < days_in_month (year d) (month d)" "n = Date (year d) (month d + 1) 1"
    by auto
  then show ?thesis
  proof cases
    case 1
    then show ?thesis by (simp add: day_of_year_def)
  next
    case 2
    with assms(1) have "day d = days_in_month (year d) (month d)" "1 \<le> month d"
      by (simp_all add: valid_date_def)
    with 2 show ?thesis by (simp add: day_of_year_def days_before_month_step)
  qed
qed

section \<open>The day-by-day loop\<close>

declare series_loop.simps [simp del]

lemma cursor_induct:
  assumes step: "\<And>c. (\<And>n. date_le c e \<Longrightarrow> add_one_day c = Inr n \<Longrightarrow> P n) \<Longrightarrow> P c"
  shows "P c"
  using series_loop.induct [of "\<lambda>m e' c ds cs. e' = e \<longrightarrow> P c" Map.empty e c "[]" "[]"] step
  by blast

lemma series_loop_acc:
  "series_loop m e c ds cs =
     (case series_loop m e c [] [] of
        Inl err \<Rightarrow> Inl err
      | Inr (w, v) \<Rightarrow> Inr (ds @ w, cs @ v))"
proof (induction c arbitrary: ds cs rule: cursor_induct [of e])
  case (1 c)
  note unf = series_loop.simps [of m e c ds cs] series_loop.simps [of m e c "[]" "[]"]
  show ?case
  proof (cases "date_le c e")
    case False
    then show ?thesis by (simp add: unf)
  next
    case le: True
    show ?thesis
    proof (cases "add_one_day c")
      case (Inl err)
      with le show ?thesis by (simp add: unf)
    next
      case (Inr n)
      have a: "series_loop m e c ds cs
                 = series_loop m e n (ds @ [c]) (cs @ [dict_get m c 0])"
        using le Inr by (simp add: unf(1))
      have b: "series_loop m e c [] [] = series_loop m e n [c] [dict_get m c 0]"
        using le Inr by (simp add: unf(2))
      show ?thesis
      proof (cases "series_loop m e n [] []")
        case (Inl err)
        with "1" [OF le Inr, of "ds @ [c]" "cs @ [dict_get m c 0]"]
             "1" [OF le Inr, of "[c]" "[dict_get m c 0]"] a b
        show ?thesis by simp
      next
        case (Inr r)
        obtain w v where "r = (w, v)" by (cases r)
        with Inr "1" [OF le \<open>add_one_day c = Inr n\<close>, of "ds @ [c]" "cs @ [dict_get m c 0]"]
             "1" [OF le \<open>add_one_day c = Inr n\<close>, of "[c]" "[dict_get m c 0]"] a b
        show ?thesis by simp
      qed
    qed
  qed
qed

lemma series_loop_unfold:
  "series_loop m e c [] [] =
     (if date_le c e then
        (case add_one_day c of
           Inl err \<Rightarrow> Inl err
         | Inr n \<Rightarrow>
             (case series_loop m e n [] [] of
                Inl err \<Rightarrow> Inl err
              | Inr (w, v) \<Rightarrow> Inr (c # w, dict_get m c 0 # v)))
      else Inr ([], []))"
proof (cases "date_le c e")
  case False
  then show ?thesis by (simp add: series_loop.simps [of m e c])
next
  case True
  show ?thesis
  proof (cases "add_one_day c")
    case (Inl err)
    with True show ?thesis by (simp add: series_loop.simps [of m e c])
  next
    case (Inr n)
    have b: "series_loop m e c [] [] = series_loop m e n [c] [dict_get m c 0]"
      using True Inr by (simp add: series_loop.simps [of m e c])
    show ?thesis
    proof (cases "series_loop m e n [] []")
      case (Inl err)
      with True \<open>add_one_day c = Inr n\<close> b
        series_loop_acc [of m e n "[c]" "[dict_get m c 0]"]
      show ?thesis by simp
    next
      case (Inr r)
      obtain w v where "r = (w, v)" by (cases r)
      with Inr True \<open>add_one_day c = Inr n\<close> b
        series_loop_acc [of m e n "[c]" "[dict_get m c 0]"]
      show ?thesis by simp
    qed
  qed
qed

lemma series_loop_step:
  assumes "series_loop m e c [] [] = Inr (w, v)" "date_le c e"
  obtains n w' v' where "add_one_day c = Inr n" "series_loop m e n [] [] = Inr (w', v')"
    "w = c # w'" "v = dict_get m c 0 # v'"
proof -
  from assms have r: "(case add_one_day c of
           Inl err \<Rightarrow> Inl err
         | Inr n \<Rightarrow>
             (case series_loop m e n [] [] of
                Inl err \<Rightarrow> Inl err
              | Inr (w, v) \<Rightarrow> Inr (c # w, dict_get m c 0 # v))) = Inr (w, v)"
    using series_loop_unfold [of m e c] by simp
  then obtain n where n: "add_one_day c = Inr n" by (cases "add_one_day c") simp_all
  with r obtain p where p: "series_loop m e n [] [] = Inr p"
    by (cases "series_loop m e n [] []") simp_all
  obtain w' v' where "p = (w', v')" by (cases p)
  with n p r that show thesis by simp
qed

lemma series_loop_stop:
  "\<not> date_le c e \<Longrightarrow> series_loop m e c [] [] = Inr ([], [])"
  by (simp add: series_loop.simps [of m e c])

lemma series_loop_shape:
  "series_loop m e c [] [] = Inr (w, v) \<Longrightarrow>
   v = map (\<lambda>d. dict_get m d 0) w \<and> successively next_day w
   \<and> (date_le c e \<longrightarrow> w \<noteq> [] \<and> hd w = c) \<and> (\<not> date_le c e \<longrightarrow> w = [])"
proof (induction c arbitrary: w v rule: cursor_induct [of e])
  case (1 c)
  show ?case
  proof (cases "date_le c e")
    case False
    with "1.prems" show ?thesis by (simp add: series_loop_stop)
  next
    case True
    from "1.prems" True obtain n w' v' where n: "add_one_day c = Inr n"
      and r: "series_loop m e n [] [] = Inr (w', v')"
      and w: "w = c # w'" and v: "v = dict_get m c 0 # v'"
      by (rule series_loop_step)
    from "1.IH" [OF True n r] have ih: "v' = map (\<lambda>d. dict_get m d 0) w'"
      "successively next_day w'" "date_le n e \<longrightarrow> w' \<noteq> [] \<and> hd w' = n"
      by simp_all
    have "successively next_day (c # w')"
    proof (cases w')
      case Nil
      then show ?thesis by simp
    next
      case (Cons x xs)
      with ih(3) r have "x = n"
        by (cases "date_le n e") (auto simp: series_loop_stop)
      with Cons ih(2) n show ?thesis by (simp add: next_day_def)
    qed
    with True w v ih(1) show ?thesis by simp
  qed
qed

lemma series_loop_valid:
  "valid_date c \<Longrightarrow> series_loop m e c [] [] = Inr (w, v) \<Longrightarrow>
   (\<forall>d\<in>set w. valid_date d \<and> date_le c d \<and> date_le d e) \<and> sorted_wrt date_lt w"
proof (induction c arbitrary: w v rule: cursor_induct [of e])
  case (1 c)
  show ?case
  proof (cases "date_le c e")
    case False
    with "1.prems" show ?thesis by (simp add: series_loop_stop)
  next
    case True
    from "1.prems"(2) True obtain n w' v' where n: "add_one_day c = Inr n"
      and r: "series_loop m e n [] [] = Inr (w', v')"
      and w: "w = c # w'" and v: "v = dict_get m c 0 # v'"
      by (rule series_loop_step)
    from add_one_day_valid [OF "1.prems"(1) n] have vn: "valid_date n" and lt: "date_lt c n"
      by simp_all
    from "1.IH" [OF True n vn r]
    have ih: "\<forall>d\<in>set w'. valid_date d \<and> date_le n d \<and> date_le d e" "sorted_wrt date_lt w'"
      by simp_all
    have "\<forall>d\<in>set w'. date_lt c d"
      using ih(1) lt by (auto simp: date_le_def dest: date_lt_trans)
    with ih True "1.prems"(1) w show ?thesis
      by (auto simp: date_le_def)
  qed
qed

lemma series_loop_last:
  "valid_date c \<Longrightarrow> valid_date e \<Longrightarrow> date_le c e \<Longrightarrow>
   series_loop m e c [] [] = Inr (w, v) \<Longrightarrow> w \<noteq> [] \<and> last w = e"
proof (induction c arbitrary: w v rule: cursor_induct [of e])
  case (1 c)
  from "1.prems"(4,3) obtain n w' v' where n: "add_one_day c = Inr n"
    and r: "series_loop m e n [] [] = Inr (w', v')"
    and w: "w = c # w'" and v: "v = dict_get m c 0 # v'"
    by (rule series_loop_step)
  from add_one_day_valid [OF "1.prems"(1) n] have vn: "valid_date n" and lt: "date_lt c n"
    by simp_all
  show ?case
  proof (cases "c = e")
    case True
    with lt have "\<not> date_le n e" by (simp add: not_date_le)
    with r have "w' = []" by (simp add: series_loop_stop)
    with w True show ?thesis by simp
  next
    case False
    with "1.prems"(3) have "date_lt c e" by (simp add: date_le_def)
    from add_one_day_no_gap [OF "1.prems"(1,2) this n] have le: "date_le n e" .
    from "1.IH" [OF "1.prems"(3) n vn "1.prems"(2) le r] w show ?thesis by simp
  qed
qed

lemma series_loop_result:
  assumes "valid_date c" "valid_date e"
  shows "if date_le c e \<and> e = Date MAXYEAR 12 31
         then series_loop m e c [] [] = Inl (OverflowError ''date value out of range'')
         else (\<exists>w v. series_loop m e c [] [] = Inr (w, v))"
  using assms(1)
proof (induction c rule: cursor_induct [of e])
  case (1 c)
  show ?case
  proof (cases "date_le c e")
    case False
    then show ?thesis by (simp add: series_loop_stop)
  next
    case le: True
    show ?thesis
    proof (cases "add_one_day c")
      case (Inl err)
      with add_one_day_Inl [OF "1.prems"] have c: "c = Date MAXYEAR 12 31" by blast
      from date_max [OF assms(2)] le c have "e = Date MAXYEAR 12 31"
        using date_lt_asym by (auto simp: date_le_def)
      moreover from Inl le have "series_loop m e c [] [] = Inl err"
        by (simp add: series_loop.simps [of m e c])
      ultimately show ?thesis using le add_one_day_overflow [OF Inl] by simp
    next
      case (Inr n)
      from add_one_day_valid [OF "1.prems" Inr] have vn: "valid_date n" and lt: "date_lt c n"
        by simp_all
      note ih = "1.IH" [OF le Inr vn]
      show ?thesis
      proof (cases "e = Date MAXYEAR 12 31")
        case True
        from date_max [OF vn] True have "date_le n e" by simp
        with ih True have "series_loop m e n [] [] = Inl (OverflowError ''date value out of range'')"
          by simp
        with le Inr True show ?thesis
          by (subst series_loop_unfold) simp
      next
        case False
        with ih obtain w v where "series_loop m e n [] [] = Inr (w, v)" by auto
        with le Inr False show ?thesis
          by (subst series_loop_unfold) simp
      qed
    qed
  qed
qed

lemma series_loop_length:
  "valid_date c \<Longrightarrow> valid_date e \<Longrightarrow> year c = year e \<Longrightarrow> date_le c e \<Longrightarrow>
   series_loop m e c [] [] = Inr (w, v) \<Longrightarrow>
   int (length w) = day_of_year e - day_of_year c + 1"
proof (induction c arbitrary: w v rule: cursor_induct [of e])
  case (1 c)
  from "1.prems"(5,4) obtain n w' v' where n: "add_one_day c = Inr n"
    and r: "series_loop m e n [] [] = Inr (w', v')"
    and w: "w = c # w'" and v: "v = dict_get m c 0 # v'"
    by (rule series_loop_step)
  from add_one_day_valid [OF "1.prems"(1) n] have vn: "valid_date n" and lt: "date_lt c n"
    by simp_all
  show ?case
  proof (cases "c = e")
    case True
    with lt have "\<not> date_le n e" by (simp add: not_date_le)
    with r have "w' = []" by (simp add: series_loop_stop)
    with w True show ?thesis by simp
  next
    case False
    with "1.prems"(4) have "date_lt c e" by (simp add: date_le_def)
    from add_one_day_no_gap [OF "1.prems"(1,2) this n] have le: "date_le n e" .
    from lt le "1.prems"(3) have yn: "year n = year c" "year n = year e"
      by (auto simp: date_lt_def date_le_def)
    from add_one_day_doy [OF "1.prems"(1) n yn(1)] have "day_of_year n = day_of_year c + 1" .
    with "1.IH" [OF "1.prems"(4) n vn "1.prems"(2) yn(2) le r] w show ?thesis by simp
  qed
qed

lemma series_loop_set:
  assumes "valid_date e"
  shows "valid_date c \<Longrightarrow> series_loop m e c [] [] = Inr (w, v) \<Longrightarrow>
   set w = {d. valid_date d \<and> date_le c d \<and> date_le d e}"
proof (induction c arbitrary: w v rule: cursor_induct [of e])
  case (1 c)
  show ?case
  proof (cases "date_le c e")
    case False
    with "1.prems" have "w = []" by (simp add: series_loop_stop)
    moreover have "{d. valid_date d \<and> date_le c d \<and> date_le d e} = {}"
      using False date_le_trans by blast
    ultimately show ?thesis by simp
  next
    case True
    from "1.prems"(2) True obtain n w' v' where n: "add_one_day c = Inr n"
      and r: "series_loop m e n [] [] = Inr (w', v')"
      and w: "w = c # w'" and v: "v = dict_get m c 0 # v'"
      by (rule series_loop_step)
    from add_one_day_valid [OF "1.prems"(1) n] have vn: "valid_date n" and lt: "date_lt c n"
      by simp_all
    from "1.IH" [OF True n vn r]
    have ih: "set w' = {d. valid_date d \<and> date_le n d \<and> date_le d e}" .
    have "{d. valid_date d \<and> date_le c d \<and> date_le d e}
          = insert c {d. valid_date d \<and> date_le n d \<and> date_le d e}"
    proof (intro set_eqI iffI)
      fix d assume "d \<in> {d. valid_date d \<and> date_le c d \<and> date_le d e}"
      then have d: "valid_date d" "date_le c d" "date_le d e" by simp_all
      show "d \<in> insert c {d. valid_date d \<and> date_le n d \<and> date_le d e}"
      proof (cases "d = c")
        case True
        then show ?thesis by simp
      next
        case False
        with d(2) have "date_lt c d" by (auto simp: date_le_def)
        from add_one_day_no_gap [OF "1.prems"(1) d(1) this n] d show ?thesis by simp
      qed
    next
      fix d assume "d \<in> insert c {d. valid_date d \<and> date_le n d \<and> date_le d e}"
      then show "d \<in> {d. valid_date d \<and> date_le c d \<and> date_le d e}"
        using "1.prems"(1) True lt
        by (auto simp: date_le_def dest: date_lt_trans)
    qed
    with ih w show ?thesis by simp
  qed
qed

lemma sorted_wrt_date_lt_distinct: "sorted_wrt date_lt w \<Longrightarrow> distinct w"
  by (induction w) (auto simp: date_lt_irrefl)

section \<open>Collecting the records\<close>

lemma record_count_Inr: "entry_count e = Inr c \<Longrightarrow> record_count e = c"
  by (simp add: record_count_def)

lemma count_ok_iff: "count_ok e \<longleftrightarrow> (\<exists>c. entry_count e = Inr c)"
  by (cases "entry_count e") (simp_all add: count_ok_def)

lemma collect_single_append:
  "collect_single (xs @ ys) m =
     (case collect_single xs m of Inl err \<Rightarrow> Inl err | Inr m' \<Rightarrow> collect_single ys m')"
  by (induction xs arbitrary: m) (auto split: sum.splits)

lemma collect_summed_append:
  "collect_summed (xs @ ys) m =
     (case collect_summed xs m of Inl err \<Rightarrow> Inl err | Inr m' \<Rightarrow> collect_summed ys m')"
  by (induction xs arbitrary: m) (auto split: sum.splits)

lemma collect_single_ok:
  "(\<exists>m'. collect_single xs m = Inr m') \<longleftrightarrow> list_all count_ok xs"
  by (induction xs arbitrary: m) (auto simp: count_ok_def split: sum.splits)

lemma collect_summed_ok:
  "(\<exists>m'. collect_summed xs m = Inr m') \<longleftrightarrow> list_all count_ok xs"
  by (induction xs arbitrary: m) (auto simp: count_ok_def split: sum.splits)

lemma last_write_count_Cons:
  "last_write_count d (e # es) =
     (if \<exists>x\<in>set es. record_date x = Some d then last_write_count d es
      else if record_date e = Some d then record_count e else 0)"
proof -
  have "filter (\<lambda>e. record_date e = Some d) es = [] \<longleftrightarrow> \<not> (\<exists>x\<in>set es. record_date x = Some d)"
    by (auto simp: filter_empty_conv)
  then show ?thesis
    by (cases "filter (\<lambda>e. record_date e = Some d) es")
       (auto simp: last_write_count_def)
qed

lemma last_write_count_none:
  "\<forall>x\<in>set es. record_date x \<noteq> Some d \<Longrightarrow> last_write_count d es = 0"
  by (induction es) (simp_all add: last_write_count_def)

lemma collect_single_get:
  "collect_single xs m = Inr m' \<Longrightarrow>
   dict_get m' d 0 =
     (if \<exists>x\<in>set xs. record_date x = Some d then last_write_count d xs else dict_get m d 0)"
proof (induction xs arbitrary: m)
  case Nil
  then show ?case by simp
next
  case (Cons e es)
  from Cons.prems obtain c where c: "entry_count e = Inr c"
    by (cases "entry_count e") simp_all
  show ?case
  proof (cases "fromisoformat (entry_date_str e)")
    case (Inl err)
    with c Cons.prems have "collect_single es m = Inr m'" by simp
    from Cons.IH [OF this] Inl show ?thesis
      by (simp add: last_write_count_Cons record_date_def)
  next
    case (Inr dv)
    with c Cons.prems have "collect_single es (m(dv \<mapsto> c)) = Inr m'" by simp
    from Cons.IH [OF this] Inr c show ?thesis
      by (auto simp: last_write_count_Cons record_date_def dict_get_def record_count_def)
  qed
qed

lemma collect_single_empty_get:
  "collect_single xs Map.empty = Inr m' \<Longrightarrow> dict_get m' d 0 = last_write_count d xs"
  using collect_single_get [of xs Map.empty m' d] last_write_count_none [of xs d]
  by (auto simp: dict_get_def)

lemma summed_count_Cons:
  "summed_count d (e # es) =
     (if record_date e = Some d then record_count e else 0) + summed_count d es"
  by (simp add: summed_count_def)

lemma collect_summed_get:
  "collect_summed xs m = Inr m' \<Longrightarrow> dict_get m' d 0 = dict_get m d 0 + summed_count d xs"
proof (induction xs arbitrary: m)
  case Nil
  then show ?case by (simp add: summed_count_def)
next
  case (Cons e es)
  from Cons.prems obtain c where c: "entry_count e = Inr c"
    by (cases "entry_count e") simp_all
  show ?case
  proof (cases "fromisoformat (entry_date_str e)")
    case (Inl err)
    with c Cons.prems have "collect_summed es m = Inr m'" by simp
    from Cons.IH [OF this] Inl show ?thesis
      by (simp add: summed_count_Cons record_date_def)
  next
    case (Inr dv)
    with c Cons.prems
    have "collect_summed es (m(dv \<mapsto> dict_get m dv 0 + c)) = Inr m'" by simp
    from Cons.IH [OF this] Inr c show ?thesis
      by (auto simp: summed_count_Cons record_date_def dict_get_def record_count_def)
  qed
qed

lemma collect_years_records:
  "collect_years years by_year m = collect_summed (records_of_years years by_year) m"
  by (induction years arbitrary: m)
     (auto simp: records_of_years_def collect_summed_append split: sum.splits)

lemma collect_single_drop:
  assumes "entry_count e = Inr c" "fromisoformat (entry_date_str e) = Inl err"
  shows "collect_single (pre @ e # post) m = collect_single (pre @ post) m"
  using assms by (simp add: collect_single_append split: sum.splits)

lemma collect_summed_drop:
  assumes "entry_count e = Inr c" "fromisoformat (entry_date_str e) = Inl err"
  shows "collect_summed (pre @ e # post) m = collect_summed (pre @ post) m"
  using assms by (simp add: collect_summed_append split: sum.splits)

lemma collect_single_same:
  assumes "entry_count e = entry_count e'" "entry_date_str e = entry_date_str e'"
  shows "collect_single (pre @ e # post) m = collect_single (pre @ e' # post) m"
  using assms by (simp add: collect_single_append split: sum.splits)

lemma collect_summed_same:
  assumes "entry_count e = entry_count e'" "entry_date_str e = entry_date_str e'"
  shows "collect_summed (pre @ e # post) m = collect_summed (pre @ e' # post) m"
  using assms by (simp add: collect_summed_append split: sum.splits)

text \<open>Replacing the list of one year by a list that collects to the same map leaves the
  combined collection unchanged.\<close>

lemma collect_years_replace:
  assumes "\<And>m. collect_summed xs m = collect_summed xs' m"
  shows "collect_years years (by_year(y \<mapsto> xs)) m = collect_years years (by_year(y \<mapsto> xs')) m"
proof (induction years arbitrary: m)
  case Nil
  show ?case by simp
next
  case (Cons a years)
  show ?case
  proof (cases "a = y")
    case True
    with assms [of m] Cons.IH show ?thesis
      by (simp add: dict_get_def split: sum.splits)
  next
    case False
    with Cons.IH show ?thesis
      by (simp add: dict_get_def split: sum.splits)
  qed
qed

section \<open>The builders\<close>

lemma py_min_Min: "xs \<noteq> [] \<Longrightarrow> py_min xs = Inr (Min (set xs))"
proof (cases xs)
  case Nil
  assume "xs \<noteq> []"
  with Nil show ?thesis by simp
next
  case (Cons a list)
  then show ?thesis using Min.set_eq_fold [of a list] by (simp add: py_min_def)
qed

lemma py_max_Max: "xs \<noteq> [] \<Longrightarrow> py_max xs = Inr (Max (set xs))"
proof (cases xs)
  case Nil
  assume "xs \<noteq> []"
  with Nil show ?thesis by simp
next
  case (Cons a list)
  then show ?thesis using Max.set_eq_fold [of a list] by (simp add: py_max_def)
qed

lemma py_min_max_Inr:
  "years \<noteq> [] \<Longrightarrow> \<exists>fy ly. py_min years = Inr fy \<and> py_max years = Inr ly"
  by (cases years) (simp_all add: py_min_def py_max_def)

lemma build_date_series_eq:
  "build_date_series today yr activity =
     (case collect_single activity Map.empty of
        Inl err \<Rightarrow> Inl err
      | Inr m \<Rightarrow>
          if MINYEAR \<le> yr \<and> yr \<le> MAXYEAR then
            if date_lt (date_min today (Date yr 12 31)) (Date yr 1 1)
            then Inl (ValueError ''Year is in the future.'')
            else series_loop m (date_min today (Date yr 12 31)) (Date yr 1 1) [] []
          else Inl (ValueError ''year is out of range''))"
  by (auto simp: build_date_series_def dt_date_year Let_def split: sum.splits)

lemma build_combined_series_empty:
  "build_combined_series today [] by_year =
     Inl (ValueError ''No years provided for combined series.'')"
  by (simp add: build_combined_series_def)

lemma build_combined_series_eq:
  assumes "py_min years = Inr fy" "py_max years = Inr ly"
  shows "build_combined_series today years by_year =
     (case collect_summed (records_of_years years by_year) Map.empty of
        Inl err \<Rightarrow> Inl err
      | Inr m \<Rightarrow>
          if MINYEAR \<le> fy \<and> fy \<le> MAXYEAR \<and> MINYEAR \<le> ly \<and> ly \<le> MAXYEAR then
            if date_lt (date_min today (Date ly 12 31)) (Date fy 1 1)
            then Inl (ValueError ''Year range is in the future.'')
            else series_loop m (date_min today (Date ly 12 31)) (Date fy 1 1) [] []
          else Inl (ValueError ''year is out of range''))"
proof -
  from assms(1) have ne: "years \<noteq> []" by (auto simp: py_min_def)
  with assms show ?thesis
    by (auto simp: build_combined_series_def collect_years_records dt_date_year Let_def
        split: sum.splits)
qed

lemma valid_jan1: "MINYEAR \<le> y \<Longrightarrow> y \<le> MAXYEAR \<Longrightarrow> valid_date (Date y 1 1)"
  by (simp add: valid_date_def days_in_month_def)

lemma valid_dec31: "MINYEAR \<le> y \<Longrightarrow> y \<le> MAXYEAR \<Longrightarrow> valid_date (Date y 12 31)"
  by (simp add: valid_date_def days_in_month_def)

lemma valid_date_min: "valid_date a \<Longrightarrow> valid_date b \<Longrightarrow> valid_date (date_min a b)"
  by (simp add: date_min_def)

text \<open>What a returned series looks like, for either builder: the loop ran from a valid
  start date over a map.\<close>

lemma series_loop_counts:
  assumes "series_loop m e c [] [] = Inr (dates, counts)"
  shows "length counts = length dates \<and> (\<forall>i<length dates. counts ! i = dict_get m (dates ! i) 0)"
  using series_loop_shape [OF assms] by simp

lemma series_loop_order:
  assumes "valid_date c" "series_loop m e c [] [] = Inr (dates, counts)"
  shows "sorted_wrt date_lt dates \<and> distinct dates \<and> successively next_day dates"
  using series_loop_valid [OF assms] series_loop_shape [OF assms(2)] sorted_wrt_date_lt_distinct
  by blast

lemma build_date_series_Inr:
  assumes "build_date_series today yr activity = Inr (dates, counts)"
  obtains m where "collect_single activity Map.empty = Inr m"
    "MINYEAR \<le> yr" "yr \<le> MAXYEAR"
    "\<not> date_lt (date_min today (Date yr 12 31)) (Date yr 1 1)"
    "series_loop m (date_min today (Date yr 12 31)) (Date yr 1 1) [] [] = Inr (dates, counts)"
  using assms unfolding build_date_series_eq
  by (auto split: sum.splits if_splits)

lemma build_combined_series_Inr:
  assumes "build_combined_series today years by_year = Inr (dates, counts)"
  obtains m fy ly where "collect_summed (records_of_years years by_year) Map.empty = Inr m"
    "py_min years = Inr fy" "py_max years = Inr ly"
    "MINYEAR \<le> fy" "fy \<le> MAXYEAR" "MINYEAR \<le> ly" "ly \<le> MAXYEAR"
    "\<not> date_lt (date_min today (Date ly 12 31)) (Date fy 1 1)"
    "series_loop m (date_min today (Date ly 12 31)) (Date fy 1 1) [] [] = Inr (dates, counts)"
proof -
  from assms have "years \<noteq> []"
    by (auto simp: build_combined_series_def split: sum.splits)
  then obtain fy ly where f: "py_min years = Inr fy" "py_max years = Inr ly"
    using py_min_max_Inr by blast
  from assms that [OF _ f] show thesis
    unfolding build_combined_series_eq [OF f]
    by (auto split: sum.splits if_splits)
qed

section \<open>Ordinals\<close>

lemma div_pred:
  assumes "0 < (k::int)"
  shows "y div k = (y - 1) div k + (if y mod k = 0 then 1 else 0)"
proof (cases "y mod k = 0")
  case True
  then have "y = k * (y div k)" by (simp add: mod_eq_0_iff_dvd)
  then have "y - 1 = k * (y div k - 1) + (k - 1)" by (simp add: algebra_simps)
  with assms have "(y - 1) div k = y div k - 1"
    by (intro int_div_pos_eq [where r = "k - 1"]) simp_all
  with True show ?thesis by simp
next
  case False
  have "y = k * (y div k) + y mod k" by simp
  then have e: "y - 1 = k * (y div k) + (y mod k - 1)" by simp
  from assms have "0 \<le> y mod k" "y mod k < k" by simp_all
  with False have "0 \<le> y mod k - 1" "y mod k - 1 < k" by simp_all
  with e have "(y - 1) div k = y div k"
    by (intro int_div_pos_eq [where r = "y mod k - 1"])
  with False show ?thesis by simp
qed

lemma mod_400_100: "(y::int) mod 400 = 0 \<Longrightarrow> y mod 100 = 0"
proof -
  assume "y mod 400 = 0"
  then have "400 dvd y" by (simp add: mod_eq_0_iff_dvd)
  moreover have "(100::int) dvd 400" by simp
  ultimately have "100 dvd y" by (rule dvd_trans [rotated])
  then show ?thesis by (simp add: mod_eq_0_iff_dvd)
qed

lemma mod_100_4: "(y::int) mod 100 = 0 \<Longrightarrow> y mod 4 = 0"
proof -
  assume "y mod 100 = 0"
  then have "100 dvd y" by (simp add: mod_eq_0_iff_dvd)
  moreover have "(4::int) dvd 100" by simp
  ultimately have "4 dvd y" by (rule dvd_trans [rotated])
  then show ?thesis by (simp add: mod_eq_0_iff_dvd)
qed

lemma year_step_arith:
  fixes y :: int
  assumes "q4 = r4 + a" "q100 = r100 + b" "q400 = r400 + c"
    "S = y * 365 + q4 - q100 + q400" "T = (y - 1) * 365 + r4 - r100 + r400"
    "L = 365 + a - b + c"
  shows "S = T + L"
  using assms by (simp add: algebra_simps)

lemma days_before_year_step: "days_before_year (y + 1) = days_before_year y + days_in_year y"
proof -
  define p4 where "p4 \<longleftrightarrow> y mod 4 = 0"
  define p100 where "p100 \<longleftrightarrow> y mod 100 = 0"
  define p400 where "p400 \<longleftrightarrow> y mod 400 = 0"
  define a :: int where "a = (if p4 then 1 else 0)"
  define b :: int where "b = (if p100 then 1 else 0)"
  define c :: int where "c = (if p400 then 1 else 0)"
  have 1: "y div 4 = (y - 1) div 4 + a" unfolding a_def p4_def by (rule div_pred) simp
  have 2: "y div 100 = (y - 1) div 100 + b" unfolding b_def p100_def by (rule div_pred) simp
  have 3: "y div 400 = (y - 1) div 400 + c" unfolding c_def p400_def by (rule div_pred) simp
  have s: "days_before_year (y + 1) = y * 365 + y div 4 - y div 100 + y div 400"
    by (simp add: days_before_year_def)
  have t: "days_before_year y
             = (y - 1) * 365 + (y - 1) div 4 - (y - 1) div 100 + (y - 1) div 400"
    by (simp only: days_before_year_def)
  have i1: "p400 \<longrightarrow> p100" unfolding p400_def p100_def by (rule impI) (rule mod_400_100)
  have i2: "p100 \<longrightarrow> p4" unfolding p100_def p4_def by (rule impI) (rule mod_100_4)
  have "is_leap y \<longleftrightarrow> p4 \<and> (\<not> p100 \<or> p400)"
    unfolding is_leap_def p4_def p100_def p400_def ..
  then have d: "days_in_year y = (if p4 \<and> (\<not> p100 \<or> p400) then 366 else 365)"
    by (simp only: days_in_year_def)
  have l: "days_in_year y = 365 + a - b + c"
    unfolding d a_def b_def c_def using i1 i2 by (cases p4; cases p100; cases p400) simp_all
  from 1 2 3 s t l show ?thesis by (rule year_step_arith)
qed

lemma add_one_day_ordinal:
  assumes "valid_date d" "add_one_day d = Inr n"
  shows "toordinal n = toordinal d + 1"
proof (cases "year n = year d")
  case True
  with add_one_day_doy [OF assms True] show ?thesis by (simp add: toordinal_def)
next
  case False
  with add_one_day_cases [OF assms(2)]
  have n: "n = Date (year d + 1) 1 1" and m: "\<not> month d < 12"
    and dd: "\<not> day d < days_in_month (year d) (month d)"
    by auto
  from assms(1) m have m12: "month d = 12" by (simp add: valid_date_def)
  with assms(1) dd have d31: "day d = 31" by (simp add: valid_date_def days_in_month_def)
  show ?thesis
    by (simp add: n toordinal_def day_of_year_def m12 d31 days_before_month_12
        days_before_month_1 days_before_year_step)
qed

lemma series_loop_ordinals:
  "valid_date c \<Longrightarrow> series_loop m e c [] [] = Inr (w, v) \<Longrightarrow>
   \<forall>i<length w. toordinal (w ! i) = toordinal c + int i"
proof (induction c arbitrary: w v rule: cursor_induct [of e])
  case (1 c)
  show ?case
  proof (cases "date_le c e")
    case False
    with "1.prems" show ?thesis by (simp add: series_loop_stop)
  next
    case True
    from "1.prems"(2) True obtain n w' v' where n: "add_one_day c = Inr n"
      and r: "series_loop m e n [] [] = Inr (w', v')"
      and w: "w = c # w'" and v: "v = dict_get m c 0 # v'"
      by (rule series_loop_step)
    from add_one_day_valid [OF "1.prems"(1) n] have vn: "valid_date n" by simp
    from "1.IH" [OF True n vn r] add_one_day_ordinal [OF "1.prems"(1) n]
    have ih: "\<forall>i<length w'. toordinal (w' ! i) = toordinal c + 1 + int i" by simp
    show ?thesis
    proof (intro allI impI)
      fix i assume "i < length w"
      with w ih show "toordinal (w ! i) = toordinal c + int i"
        by (cases i) simp_all
    qed
  qed
qed

lemma series_loop_doys:
  "valid_date c \<Longrightarrow> valid_date e \<Longrightarrow> year c = year e \<Longrightarrow>
   series_loop m e c [] [] = Inr (w, v) \<Longrightarrow>
   \<forall>i<length w. year (w ! i) = year c \<and> day_of_year (w ! i) = day_of_year c + int i"
proof -
  assume c: "valid_date c" and e: "valid_date e" and y: "year c = year e"
    and r: "series_loop m e c [] [] = Inr (w, v)"
  from series_loop_valid [OF c r]
  have b: "\<forall>d\<in>set w. date_le c d \<and> date_le d e" by simp
  have "\<forall>i<length w. year (w ! i) = year c"
  proof (intro allI impI)
    fix i assume "i < length w"
    with b have "date_le c (w ! i)" "date_le (w ! i) e" by simp_all
    with y show "year (w ! i) = year c" by (auto simp: date_le_def date_lt_def)
  qed
  with series_loop_ordinals [OF c r] show ?thesis by (simp add: toordinal_def)
qed

lemma series_loop_span:
  assumes "valid_date c" "valid_date e" "date_le c e" "series_loop m e c [] [] = Inr (w, v)"
  shows "int (length w) = toordinal e - toordinal c + 1"
proof -
  from series_loop_last [OF assms] have ne: "w \<noteq> []" and l: "last w = e" by simp_all
  from ne have "length w - 1 < length w" by simp
  with series_loop_ordinals [OF assms(1,4)]
  have "toordinal (w ! (length w - 1)) = toordinal c + int (length w - 1)" by blast
  moreover from ne have "int (length w - 1) = int (length w) - 1" by (cases w) simp_all
  ultimately show ?thesis using ne l by (simp add: last_conv_nth)
qed

lemma toordinal_examples:
  "toordinal (Date 1 1 1) = 1" "toordinal (Date 2024 1 1) = 738886"
  "toordinal (Date 2024 12 31) = 739251"
  by (simp_all add: toordinal_def days_before_year_def day_of_year_def days_before_month_def
      days_in_month_def is_leap_def upto_rec1)

section \<open>Properties of the series builders\<close>

lemmas eval_defs = build_date_series_def build_combined_series_def dt_date_def
  MINYEAR_def MAXYEAR_def days_in_month_def is_leap_def date_min_def date_lt_def date_le_def
  add_one_day_def dict_get_def entry_count_def entry_date_str_def py_or_def fromisoformat_def
  is_digit_def digit_val_def digits_num_def py_min_def py_max_def Let_def
  int_of_str_def parse_decimal_def int_strip_def int_isspace_def

lemmas spec_defs = last_write_count_def summed_count_def records_of_years_def record_date_def
  record_count_def count_ok_def

lemma build_date_series_counts:
  assumes "build_date_series today yr activity = Inr (dates, counts)"
  shows "length counts = length dates
         \<and> (\<forall>i<length dates. counts ! i = last_write_count (dates ! i) activity)"
proof -
  from assms obtain m where m: "collect_single activity Map.empty = Inr m"
    and l: "series_loop m (date_min today (Date yr 12 31)) (Date yr 1 1) [] [] = Inr (dates, counts)"
    by (rule build_date_series_Inr)
  from series_loop_counts [OF l] collect_single_empty_get [OF m] show ?thesis by simp
qed

lemma build_combined_series_counts:
  assumes "build_combined_series today years by_year = Inr (dates, counts)"
  shows "length counts = length dates
         \<and> (\<forall>i<length dates. counts ! i
               = summed_count (dates ! i) (records_of_years years by_year))"
proof -
  from assms obtain m fy ly
    where m: "collect_summed (records_of_years years by_year) Map.empty = Inr m"
    and l: "series_loop m (date_min today (Date ly 12 31)) (Date fy 1 1) [] [] = Inr (dates, counts)"
    by (rule build_combined_series_Inr)
  from series_loop_counts [OF l] collect_summed_get [OF m] show ?thesis
    by (simp add: dict_get_def)
qed

text \<open>
  Claim C1. Whenever the single-year builder returns a series, the count it gives for
  a date is the count of the last record of the input carrying that date (0 when there
  is none): a later duplicate overwrites, nothing is summed. Whenever the combined
  builder returns a series, the count it gives for a date is the sum of the counts of
  all records carrying that date in the lists of the given years. For two records
  dated 2025-01-01 with counts 5 and 3, the first policy gives 3 and the second, over
  the lists of two different years, gives 8.
\<close>

theorem merge_policy_asymmetry:
  "(build_date_series today yr activity = Inr (dates, counts) \<longrightarrow>
      length counts = length dates
      \<and> (\<forall>i<length dates. counts ! i = last_write_count (dates ! i) activity))
   \<and> (build_combined_series today years by_year = Inr (dates', counts') \<longrightarrow>
      length counts' = length dates'
      \<and> (\<forall>i<length dates'. counts' ! i
            = summed_count (dates' ! i) (records_of_years years by_year)))
   \<and> last_write_count (Date 2025 1 1)
        [[''date'' \<mapsto> PyStr ''2025-01-01'', ''count'' \<mapsto> PyInt 5],
         [''date'' \<mapsto> PyStr ''2025-01-01'', ''count'' \<mapsto> PyInt 3]] = 3
   \<and> (y1 \<noteq> y2 \<longrightarrow>
        summed_count (Date 2025 1 1)
          (records_of_years [y1, y2]
             [y1 \<mapsto> [[''date'' \<mapsto> PyStr ''2025-01-01'', ''count'' \<mapsto> PyInt 5]],
              y2 \<mapsto> [[''date'' \<mapsto> PyStr ''2025-01-01'', ''count'' \<mapsto> PyInt 3]]]) = 8)"
proof (intro conjI impI)
  assume "build_date_series today yr activity = Inr (dates, counts)"
  from build_date_series_counts [OF this]
  show "length counts = length dates"
    and "\<forall>i<length dates. counts ! i = last_write_count (dates ! i) activity"
    by simp_all
next
  assume "build_combined_series today years by_year = Inr (dates', counts')"
  from build_combined_series_counts [OF this]
  show "length counts' = length dates'"
    and "\<forall>i<length dates'. counts' ! i
            = summed_count (dates' ! i) (records_of_years years by_year)"
    by simp_all
next
  show "last_write_count (Date 2025 1 1)
        [[''date'' \<mapsto> PyStr ''2025-01-01'', ''count'' \<mapsto> PyInt 5],
         [''date'' \<mapsto> PyStr ''2025-01-01'', ''count'' \<mapsto> PyInt 3]] = 3"
    by (simp add: spec_defs eval_defs)
next
  assume "y1 \<noteq> y2"
  then show "summed_count (Date 2025 1 1)
          (records_of_years [y1, y2]
             [y1 \<mapsto> [[''date'' \<mapsto> PyStr ''2025-01-01'', ''count'' \<mapsto> PyInt 5]],
              y2 \<mapsto> [[''date'' \<mapsto> PyStr ''2025-01-01'', ''count'' \<mapsto> PyInt 3]]]) = 8"
    by (simp add: spec_defs eval_defs)
qed

theorem merge_policy_asymmetry_witness:
  "build_date_series (Date 2025 1 2) 2025
     [[''date'' \<mapsto> PyStr ''2025-01-01'', ''count'' \<mapsto> PyInt 5],
      [''date'' \<mapsto> PyStr ''2025-01-01'', ''count'' \<mapsto> PyInt 3]]
     = Inr ([Date 2025 1 1, Date 2025 1 2], [3, 0])
   \<and> last_write_count (Date 2025 1 2)
        [[''date'' \<mapsto> PyStr ''2025-01-01'', ''count'' \<mapsto> PyInt 5],
         [''date'' \<mapsto> PyStr ''2025-01-01'', ''count'' \<mapsto> PyInt 3]] = 0
   \<and> build_combined_series (Date 2025 1 2) [2025, 2026]
        [2025 \<mapsto> [[''date'' \<mapsto> PyStr ''2025-01-01'', ''count'' \<mapsto> PyInt 5]],
         2026 \<mapsto> [[''date'' \<mapsto> PyStr ''2025-01-01'', ''count'' \<mapsto> PyInt 3]]]
     = Inr ([Date 2025 1 1, Date 2025 1 2], [8, 0])
   \<and> (2025::int) \<noteq> 2026
   \<and> summed_count (Date 2025 1 1)
        (records_of_years [2025, 2026]
           [2025 \<mapsto> [[''date'' \<mapsto> PyStr ''2025-01-01'', ''count'' \<mapsto> PyInt 5]],
            2026 \<mapsto> [[''date'' \<mapsto> PyStr ''2025-01-01'', ''count'' \<mapsto> PyInt 3]]]) = 8"
proof -
  let ?r5 = "[''date'' \<mapsto> PyStr ''2025-01-01'', ''count'' \<mapsto> PyInt 5]"
  let ?r3 = "[''date'' \<mapsto> PyStr ''2025-01-01'', ''count'' \<mapsto> PyInt 3]"
  have s: "build_date_series (Date 2025 1 2) 2025 [?r5, ?r3]
             = Inr ([Date 2025 1 1, Date 2025 1 2], [3, 0])"
    by (simp add: eval_defs series_loop.simps)
  have c: "build_combined_series (Date 2025 1 2) [2025, 2026] [2025 \<mapsto> [?r5], 2026 \<mapsto> [?r3]]
             = Inr ([Date 2025 1 1, Date 2025 1 2], [8, 0])"
    by (simp add: eval_defs series_loop.simps)
  have n: "(2025::int) \<noteq> 2026" by simp
  note t = merge_policy_asymmetry [of "Date 2025 1 2" 2025 "[?r5, ?r3]"
      "[Date 2025 1 1, Date 2025 1 2]" "[3, 0]" "[2025, 2026]" "[2025 \<mapsto> [?r5], 2026 \<mapsto> [?r3]]"
      "[Date 2025 1 1, Date 2025 1 2]" "[8, 0]" 2025 2026]
  from t s have "\<forall>i<length [Date 2025 1 1, Date 2025 1 2].
      [3, 0 :: int] ! i = last_write_count ([Date 2025 1 1, Date 2025 1 2] ! i) [?r5, ?r3]"
    by blast
  from this [rule_format, of 1] have l: "last_write_count (Date 2025 1 2) [?r5, ?r3] = 0"
    by simp
  from t n have e: "summed_count (Date 2025 1 1)
        (records_of_years [2025, 2026] [2025 \<mapsto> [?r5], 2026 \<mapsto> [?r3]]) = 8"
    by blast
  from s c n l e show ?thesis by blast
qed

lemma activity_record_count:
  "activity_record e \<Longrightarrow> \<exists>c. entry_count e = Inr c \<and> 0 \<le> c"
  by (auto simp: activity_record_def entry_count_def dict_get_def py_or_def
      split: option.splits pyval.splits)

lemma activity_record_nonneg: "activity_record e \<Longrightarrow> 0 \<le> record_count e"
  using activity_record_count [of e] by (auto simp: record_count_def)

lemma last_write_count_nonneg:
  assumes "\<forall>e\<in>set xs. 0 \<le> record_count e"
  shows "0 \<le> last_write_count d xs"
proof (cases "filter (\<lambda>e. record_date e = Some d) xs")
  case Nil
  then show ?thesis by (simp add: last_write_count_def)
next
  case (Cons a as)
  have "last (a # as) \<in> set (a # as)" by (rule last_in_set) simp
  with Cons have "last (a # as) \<in> set (filter (\<lambda>e. record_date e = Some d) xs)" by simp
  then have "last (a # as) \<in> set xs" by simp
  with assms have "0 \<le> record_count (last (a # as))" by blast
  with Cons show ?thesis by (simp add: last_write_count_def)
qed

lemma summed_count_nonneg:
  "\<forall>e\<in>set xs. 0 \<le> record_count e \<Longrightarrow> 0 \<le> summed_count d xs"
proof (induction xs)
  case Nil
  show ?case by (simp add: summed_count_def)
next
  case (Cons x xs)
  then show ?case by (simp add: summed_count_Cons)
qed

lemma summed_count_none:
  "\<forall>x\<in>set es. record_date x \<noteq> Some d \<Longrightarrow> summed_count d es = 0"
  by (induction es) (simp_all add: summed_count_def)

text \<open>
  Claim C6. For records of the data model (a count that is a non-negative integer, or
  null or missing), every count of a series returned by either builder is at least 0,
  and a day that no record carries has the count 0.
\<close>

theorem counts_nonnegative:
  "(list_all activity_record activity
      \<and> build_date_series today yr activity = Inr (dates, counts) \<longrightarrow>
      (\<forall>c\<in>set counts. 0 \<le> c)
      \<and> (\<forall>i<length dates. (\<forall>e\<in>set activity. record_date e \<noteq> Some (dates ! i))
            \<longrightarrow> counts ! i = 0))
   \<and> (list_all activity_record (records_of_years years by_year)
      \<and> build_combined_series today years by_year = Inr (dates', counts') \<longrightarrow>
      (\<forall>c\<in>set counts'. 0 \<le> c)
      \<and> (\<forall>i<length dates'.
            (\<forall>e\<in>set (records_of_years years by_year). record_date e \<noteq> Some (dates' ! i))
            \<longrightarrow> counts' ! i = 0))"
proof (intro conjI impI)
  assume a: "list_all activity_record activity
      \<and> build_date_series today yr activity = Inr (dates, counts)"
  then have nn: "\<forall>e\<in>set activity. 0 \<le> record_count e"
    by (simp add: list_all_iff activity_record_nonneg)
  from a build_date_series_counts [of today yr activity dates counts]
  have len: "length counts = length dates"
    and cnt: "\<forall>i<length dates. counts ! i = last_write_count (dates ! i) activity"
    by simp_all
  show "\<forall>c\<in>set counts. 0 \<le> c"
  proof
    fix c assume "c \<in> set counts"
    then obtain i where "i < length counts" "c = counts ! i"
      by (auto simp: in_set_conv_nth)
    with len cnt last_write_count_nonneg [OF nn] show "0 \<le> c" by simp
  qed
  show "\<forall>i<length dates. (\<forall>e\<in>set activity. record_date e \<noteq> Some (dates ! i))
            \<longrightarrow> counts ! i = 0"
    using cnt last_write_count_none by simp
next
  assume a: "list_all activity_record (records_of_years years by_year)
      \<and> build_combined_series today years by_year = Inr (dates', counts')"
  then have nn: "\<forall>e\<in>set (records_of_years years by_year). 0 \<le> record_count e"
    by (simp add: list_all_iff activity_record_nonneg)
  from a build_combined_series_counts [of today years by_year dates' counts']
  have len: "length counts' = length dates'"
    and cnt: "\<forall>i<length dates'. counts' ! i
                = summed_count (dates' ! i) (records_of_years years by_year)"
    by simp_all
  show "\<forall>c\<in>set counts'. 0 \<le> c"
  proof
    fix c assume "c \<in> set counts'"
    then obtain i where "i < length counts'" "c = counts' ! i"
      by (auto simp: in_set_conv_nth)
    with len cnt summed_count_nonneg [OF nn] show "0 \<le> c" by simp
  qed
  show "\<forall>i<length dates'.
            (\<forall>e\<in>set (records_of_years years by_year). record_date e \<noteq> Some (dates' ! i))
            \<longrightarrow> counts' ! i = 0"
    using cnt summed_count_none by simp
qed

theorem counts_nonnegative_witness:
  "list_all activity_record
     [[''date'' \<mapsto> PyStr ''2025-01-02'', ''count'' \<mapsto> PyNone],
      [''date'' \<mapsto> PyStr ''2025-01-02'', ''count'' \<mapsto> PyInt 7], [''date'' \<mapsto> PyStr ''x'']]
   \<and> build_date_series (Date 2025 1 3) 2025
     [[''date'' \<mapsto> PyStr ''2025-01-02'', ''count'' \<mapsto> PyNone],
      [''date'' \<mapsto> PyStr ''2025-01-02'', ''count'' \<mapsto> PyInt 7], [''date'' \<mapsto> PyStr ''x'']]
     = Inr ([Date 2025 1 1, Date 2025 1 2, Date 2025 1 3], [0, 7, 0])
   \<and> list_all activity_record (records_of_years [2025]
        [2025 \<mapsto> [[''date'' \<mapsto> PyStr ''2025-01-02'', ''count'' \<mapsto> PyInt 7],
                  [''date'' \<mapsto> PyStr ''2025-01-02'', ''count'' \<mapsto> PyInt 2],
                  [''date'' \<mapsto> PyStr ''2025-01-03'']]])
   \<and> build_combined_series (Date 2025 1 3) [2025]
        [2025 \<mapsto> [[''date'' \<mapsto> PyStr ''2025-01-02'', ''count'' \<mapsto> PyInt 7],
                  [''date'' \<mapsto> PyStr ''2025-01-02'', ''count'' \<mapsto> PyInt 2],
                  [''date'' \<mapsto> PyStr ''2025-01-03'']]]
     = Inr ([Date 2025 1 1, Date 2025 1 2, Date 2025 1 3], [0, 9, 0])
   \<and> list_all (\<lambda>c. 0 \<le> c) [0, 7, 0 :: int] \<and> list_all (\<lambda>c. 0 \<le> c) [0, 9, 0 :: int]"
proof -
  let ?a = "[[''date'' \<mapsto> PyStr ''2025-01-02'', ''count'' \<mapsto> PyNone],
      [''date'' \<mapsto> PyStr ''2025-01-02'', ''count'' \<mapsto> PyInt 7], [''date'' \<mapsto> PyStr ''x'']]"
  let ?b = "[2025 \<mapsto> [[''date'' \<mapsto> PyStr ''2025-01-02'', ''count'' \<mapsto> PyInt 7],
                  [''date'' \<mapsto> PyStr ''2025-01-02'', ''count'' \<mapsto> PyInt 2],
                  [''date'' \<mapsto> PyStr ''2025-01-03'']]]"
  let ?d = "[Date 2025 1 1, Date 2025 1 2, Date 2025 1 3]"
  have h1: "list_all activity_record ?a" by (simp add: activity_record_def)
  have h2: "build_date_series (Date 2025 1 3) 2025 ?a = Inr (?d, [0, 7, 0])"
    by (simp add: eval_defs series_loop.simps)
  have h3: "list_all activity_record (records_of_years [2025] ?b)"
    by (simp add: activity_record_def records_of_years_def dict_get_def)
  have h4: "build_combined_series (Date 2025 1 3) [2025] ?b = Inr (?d, [0, 9, 0])"
    by (simp add: eval_defs series_loop.simps)
  note t = counts_nonnegative [of ?a "Date 2025 1 3" 2025 ?d "[0, 7, 0]" "[2025]" ?b ?d
      "[0, 9, 0]"]
  from t [THEN conjunct1, THEN mp, OF conjI, OF h1 h2, THEN conjunct1]
  have r1: "list_all (\<lambda>c. 0 \<le> c) [0, 7, 0 :: int]" unfolding list_all_iff .
  from t [THEN conjunct2, THEN mp, OF conjI, OF h3 h4, THEN conjunct1]
  have r2: "list_all (\<lambda>c. 0 \<le> c) [0, 9, 0 :: int]" unfolding list_all_iff .
  show ?thesis by (intro conjI h1 h2 h3 h4 r1 r2)
qed

end
